theory Spec2Isabelle
  imports Main
begin

section \<open>The symbolic graph of src/symbol/symbol.cc\<close>

text \<open>
  Nodes live in a store and are shared through pointers (\<open>std::shared_ptr<Node>\<close>).
  A pointer is an address, the store is the list of all nodes allocated so far, and the
  node at address \<open>a\<close> is \<open>h ! a\<close>; allocating a node appends it to the store.
  Every function that mutates nodes takes the store and returns the new one.
\<close>

type_synonym addr = nat

text \<open>
  Modelled from the spec: the class \<open>OperatorProperty\<close> is declared outside
  symbol.cc. Section 6 of the spec lists what the graph code uses of it: \<open>TypeString()\<close>,
  \<open>ListArguments()\<close>, \<open>ListReturns()\<close>, \<open>NumVisibleReturns()\<close> and \<open>Copy()\<close>, an
  independent clone. An operator is the record of these answers.
\<close>

record OperatorProperty =
  TypeString :: string
  op_ListArguments :: "string list"
  op_ListReturns :: "string list"
  NumVisibleReturns :: nat

definition op_Copy :: "OperatorProperty \<Rightarrow> OperatorProperty" where
  "op_Copy p = p"

record DataEntry =
  source :: addr
  index :: nat

record Node =
  backward_source_node :: "addr option"
  op :: "OperatorProperty option"
  name :: string
  inputs :: "DataEntry list"

type_synonym heap = "Node list"

record Symbol =
  heads :: "DataEntry list"

text \<open>The constructor \<open>Node(op, name)\<close>: no backward source, no inputs.\<close>

definition new_Node :: "OperatorProperty option \<Rightarrow> string \<Rightarrow> Node" where
  "new_Node p nm = \<lparr>backward_source_node = None, op = p, name = nm, inputs = []\<rparr>"

definition is_atomic :: "Node \<Rightarrow> bool" where
  "is_atomic n = (length (inputs n) = 0 \<and> op n \<noteq> None)"

definition is_variable :: "Node \<Rightarrow> bool" where
  "is_variable n = (op n = None \<and> backward_source_node n = None)"

text \<open>
  Modelled from the spec: \<open>NumReturns()\<close> is defined in the header; the spec gives
  \<open>NumReturns() = number of heads\<close>.
\<close>

definition NumReturns :: "Symbol \<Rightarrow> nat" where
  "NumReturns s = length (heads s)"

definition Symbol_is_atomic :: "heap \<Rightarrow> Symbol \<Rightarrow> bool" where
  "Symbol_is_atomic h s =
     (length (heads s) = 1 \<and> is_atomic (h ! source (heads s ! 0)))"

text \<open>
  The failures of the file are \<open>CHECK\<close> and \<open>LOG(FATAL)\<close>; each is a value here, named
  after the taxonomy of the spec, with the data its message prints. \<open>Undefined\<close> stands
  for what C++ leaves undefined: a null pointer dereferenced, a vector read out of range.
\<close>

datatype error =
    ArityMismatch nat nat
  | UnsupportedTupleArgument "nat + string"
  | NotComposable
  | DuplicateArgumentName string int
  | UnmatchedKeyword string string "string list"
  | IndexOutOfRange
  | Undefined

subsection \<open>DFSVisit\<close>

text \<open>
  Both loops of \<open>DFSVisit\<close> that fill the stack have the same body: a pointer not yet in
  \<open>visited\<close> is pushed and inserted. The head of the list is the back of the vector.
\<close>

fun push_unvisited :: "addr list \<Rightarrow> addr list \<times> addr set \<Rightarrow> addr list \<times> addr set" where
  "push_unvisited [] (stack, visited) = (stack, visited)"
| "push_unvisited (ptr # ptrs) (stack, visited) =
     (if ptr \<notin> visited then push_unvisited ptrs (ptr # stack, insert ptr visited)
      else push_unvisited ptrs (stack, visited))"

definition heap_sources :: "heap \<Rightarrow> addr set" where
  "heap_sources h = (\<Union>n \<in> set h. source ` set (inputs n))"

text \<open>
  The \<open>while\<close> loop. The result is the sequence of nodes handed to \<open>fvisit\<close>; no visitor of
  the file changes the graph while the traversal runs, so a visitor is a fold over this
  sequence. A pointer that is no node of the store cannot be followed: the result is
  \<open>None\<close>.
\<close>

function dfs_loop :: "heap \<Rightarrow> addr list \<Rightarrow> addr set \<Rightarrow> addr list option" where
  "dfs_loop h [] visited = Some []"
| "dfs_loop h (back # stack) visited =
     (if back < length h then
        (let p = push_unvisited (rev (map source (inputs (h ! back)))) (stack, visited)
         in map_option ((#) back) (dfs_loop h (fst p) (snd p)))
      else None)"
  by pat_completeness auto

lemma filter_notin_insert:
  "filter (\<lambda>x. x \<notin> insert p V) xs = filter (\<lambda>x. x \<noteq> p) (filter (\<lambda>x. x \<notin> V) xs)"
  by (induction xs) auto

lemma remdups_snoc:
  "remdups (xs @ [p]) = remdups (filter (\<lambda>x. x \<noteq> p) xs) @ [p]"
  by (induction xs) auto

text \<open>
  What the filling loop leaves: the pointers not yet in \<open>visited\<close>, each once, the last
  one met on top.
\<close>

lemma push_unvisited_eq:
  "push_unvisited ps (st, V) = (remdups (filter (\<lambda>x. x \<notin> V) (rev ps)) @ st, V \<union> set ps)"
proof (induction ps arbitrary: st V)
  case Nil
  show ?case by simp
next
  case (Cons p ps)
  show ?case
  proof (cases "p \<in> V")
    case True
    then show ?thesis by (auto simp: Cons.IH)
  next
    case False
    have "remdups (filter (\<lambda>x. x \<notin> V) (rev ps) @ [p])
          = remdups (filter (\<lambda>x. x \<notin> insert p V) (rev ps)) @ [p]"
      by (simp only: remdups_snoc filter_notin_insert)
    then show ?thesis using False
      by (simp add: Cons.IH)
  qed
qed

lemma finite_heap_sources: "finite (heap_sources h)"
  by (simp add: heap_sources_def)

lemma node_sources_subset:
  "a < length h \<Longrightarrow> source ` set (inputs (h ! a)) \<subseteq> heap_sources h"
  using nth_mem [of a h] by (fastforce simp: heap_sources_def)

text \<open>
  The loop ends: a round either marks a pointer of the store that was not marked, or
  leaves the marks and shortens the stack.
\<close>

termination dfs_loop
proof (relation "inv_image (less_than <*lex*> less_than)
         (\<lambda>(h, st, V). (card (heap_sources h - V), length st))")
  show "wf (inv_image (less_than <*lex*> less_than)
         (\<lambda>(h, st, V). (card (heap_sources h - V), length st)))"
    by (rule wf_inv_image) (rule wf_lex_prod; rule wf_less_than)
next
  fix h :: heap and bk stack visited p
  assume b: "bk < length h"
    and p: "p = push_unvisited (rev (map source (inputs (h ! bk)))) (stack, visited)"
  let ?S = "source ` set (inputs (h ! bk))"
  have fp: "fst p = remdups (filter (\<lambda>x. x \<notin> visited) (map source (inputs (h ! bk)))) @ stack"
    and sp: "snd p = visited \<union> ?S"
    by (simp_all add: p push_unvisited_eq)
  show "((h, fst p, snd p), (h, bk # stack, visited))
        \<in> inv_image (less_than <*lex*> less_than)
            (\<lambda>(h, st, V). (card (heap_sources h - V), length st))"
  proof (cases "?S \<subseteq> visited")
    case True
    then have "filter (\<lambda>x. x \<notin> visited) (map source (inputs (h ! bk))) = []"
      by (auto simp: filter_empty_conv)
    moreover have "visited \<union> ?S = visited" using True by auto
    ultimately show ?thesis by (simp add: fp sp)
  next
    case False
    then obtain x where x: "x \<in> ?S" "x \<notin> visited" by auto
    have "x \<in> heap_sources h" using node_sources_subset [OF b] x by auto
    then have "heap_sources h - (visited \<union> ?S) \<subset> heap_sources h - visited"
      using x by auto
    then have "card (heap_sources h - (visited \<union> ?S)) < card (heap_sources h - visited)"
      by (intro psubset_card_mono) (simp_all add: finite_heap_sources)
    then show ?thesis by (simp add: sp)
  qed
qed

definition DFSVisit :: "heap \<Rightarrow> Symbol \<Rightarrow> addr list option" where
  "DFSVisit h s =
     (let p = push_unvisited (map source (heads s)) ([], {})
      in dfs_loop h (fst p) (snd p))"


subsection \<open>KeywordArgumentMismatch and FindDuplicateArgs\<close>

text \<open>
  The loop over \<open>user_args\<close> stops at the first key that is no candidate:
  \<open>LOG(FATAL)\<close> does not return. The message prints \<open>source\<close>, that key and the
  candidate list. With every key a candidate the function returns.
\<close>

definition KeywordArgumentMismatch :: "string \<Rightarrow> string list \<Rightarrow> string list \<Rightarrow> error option" where
  "KeywordArgumentMismatch src user_args args =
     (case find (\<lambda>key. key \<notin> set args) user_args of
        None \<Rightarrow> None
      | Some key \<Rightarrow> Some (UnmatchedKeyword src key args))"

text \<open>
  The map \<open>out\<close> of \<open>FindDuplicateArgs\<close> is an association list in the order of first
  insertion (the order in which a C++ \<open>unordered_map\<close> is walked is not specified).
  The counts are C++ \<open>int\<close>; they count nodes of the store and stay far below \<open>2^31\<close>.
\<close>

definition count_arg :: "string \<Rightarrow> (string \<times> int) list \<times> int \<Rightarrow> (string \<times> int) list \<times> int" where
  "count_arg nm st =
     (case st of (out, max_dup) \<Rightarrow>
        (case map_of out nm of
           None \<Rightarrow> (out @ [(nm, 1)], max_dup)
         | Some c \<Rightarrow>
             (map (\<lambda>kv. if fst kv = nm then (fst kv, snd kv + 1) else kv) out,
              max max_dup (c + 1))))"

definition FindDuplicateArgs :: "heap \<Rightarrow> Symbol \<Rightarrow> error + ((string \<times> int) list \<times> int)" where
  "FindDuplicateArgs h s =
     (case DFSVisit h s of
        None \<Rightarrow> Inl Undefined
      | Some nodes \<Rightarrow>
          Inr (fold (\<lambda>a st. if is_variable (h ! a) then count_arg (name (h ! a)) st else st)
                 nodes ([], 1)))"

subsection \<open>Copy\<close>

text \<open>
  \<open>old_new\<close> pairs each visited node with its new node. \<open>old_new[ptr]\<close> on a pointer
  that is no key would insert a null pointer; \<open>remap\<close> is \<open>None\<close> there and \<open>Copy\<close> is
  \<open>Undefined\<close>. The connecting loop walks the map; each round writes one new node only,
  so its order does not matter, and the model takes the order of insertion.
\<close>

definition remap :: "(addr \<times> addr) list \<Rightarrow> DataEntry \<Rightarrow> DataEntry option" where
  "remap old_new n =
     map_option (\<lambda>p. \<lparr>source = p, index = index n\<rparr>) (map_of old_new (source n))"

fun connect_nodes :: "(addr \<times> addr) list \<Rightarrow> (addr \<times> addr) list \<Rightarrow> heap \<Rightarrow> heap option" where
  "connect_nodes old_new [] h = Some h"
| "connect_nodes old_new (kv # kvs) h =
     (case those (map (remap old_new) (inputs (h ! fst kv))) of
        None \<Rightarrow> None
      | Some es \<Rightarrow>
          connect_nodes old_new kvs
            (h[snd kv := (h ! snd kv)\<lparr>inputs := inputs (h ! snd kv) @ es\<rparr>]))"

definition Copy :: "heap \<Rightarrow> Symbol \<Rightarrow> (error + Symbol) \<times> heap" where
  "Copy h s =
     (case DFSVisit h s of
        None \<Rightarrow> (Inl Undefined, h)
      | Some nodes \<Rightarrow>
          (let old_new = zip nodes [length h ..< length h + length nodes];
               h1 = h @ map (\<lambda>a. new_Node (map_option op_Copy (op (h ! a))) (name (h ! a))) nodes
           in case connect_nodes old_new old_new h1 of
                None \<Rightarrow> (Inl Undefined, h1)
              | Some h2 \<Rightarrow>
                  (case those (map (remap old_new) (heads s)) of
                     None \<Rightarrow> (Inl Undefined, h2)
                   | Some hs \<Rightarrow> (Inr \<lparr>heads = hs\<rparr>, h2))))"

subsection \<open>ListArguments, ListReturns, indexing\<close>

definition ListArguments :: "heap \<Rightarrow> Symbol \<Rightarrow> error + string list" where
  "ListArguments h s =
     (if Symbol_is_atomic h s then
        (case op (h ! source (heads s ! 0)) of
           None \<Rightarrow> Inl Undefined
         | Some p \<Rightarrow> Inr (op_ListArguments p))
      else
        (case DFSVisit h s of
           None \<Rightarrow> Inl Undefined
         | Some nodes \<Rightarrow>
             Inr (map (\<lambda>a. name (h ! a)) (filter (\<lambda>a. is_variable (h ! a)) nodes))))"

text \<open>
  One round of the loop of \<open>ListReturns\<close>. \<open>head.source->op->ListReturns()\<close> follows
  \<open>op\<close> whatever it is: with no operator the pointer is null, and an index beyond the
  operator's list reads out of range.
\<close>

definition head_return :: "heap \<Rightarrow> DataEntry \<Rightarrow> error + string" where
  "head_return h head =
     (let n = h ! source head in
      if is_variable n then Inr (name n)
      else (case op n of
              None \<Rightarrow> Inl Undefined
            | Some p \<Rightarrow>
                if index head < length (op_ListReturns p) then
                  (let rname = op_ListReturns p ! index head in
                   if length (name n) = 0 then Inr rname
                   else Inr (name n @ ''_'' @ rname))
                else Inl Undefined))"

fun ListReturns_loop :: "heap \<Rightarrow> DataEntry list \<Rightarrow> error + string list" where
  "ListReturns_loop h [] = Inr []"
| "ListReturns_loop h (head # rest) =
     (case head_return h head of
        Inl e \<Rightarrow> Inl e
      | Inr r \<Rightarrow>
          (case ListReturns_loop h rest of
             Inl e \<Rightarrow> Inl e
           | Inr ret \<Rightarrow> Inr (r # ret)))"

definition ListReturns :: "heap \<Rightarrow> Symbol \<Rightarrow> error + string list" where
  "ListReturns h s = ListReturns_loop h (heads s)"

definition Symbol_index :: "Symbol \<Rightarrow> nat \<Rightarrow> error + Symbol" where
  "Symbol_index s i =
     (let nreturn = NumReturns s in
      if \<not> i < nreturn then Inl IndexOutOfRange
      else if nreturn = 1 then Inr s
      else Inr \<lparr>heads = [heads s ! i]\<rparr>)"

subsection \<open>Create, CreateGroup, CreateVariable\<close>

definition Create :: "heap \<Rightarrow> OperatorProperty \<Rightarrow> Symbol \<times> heap" where
  "Create h p =
     (\<lparr>heads = map (\<lambda>i. \<lparr>source = length h, index = i\<rparr>) [0 ..< NumVisibleReturns p]\<rparr>,
      h @ [new_Node (Some p) []])"

definition CreateGroup :: "Symbol list \<Rightarrow> Symbol" where
  "CreateGroup symbols = \<lparr>heads = concat (map heads symbols)\<rparr>"

definition CreateVariable :: "heap \<Rightarrow> string \<Rightarrow> Symbol \<times> heap" where
  "CreateVariable h nm =
     (\<lparr>heads = [\<lparr>source = length h, index = 0\<rparr>]\<rparr>, h @ [new_Node None nm])"

subsection \<open>Compose with positional arguments\<close>

text \<open>
  The loop of lines 231 to 234: \<open>CHECK_NE(args[i].NumReturns(), 1)\<close> holds when the
  number of returns differs from one. The result is the first index at which the check
  fails, if any.
\<close>

fun check_args :: "Symbol list \<Rightarrow> nat \<Rightarrow> nat option" where
  "check_args [] i = None"
| "check_args (a # as) i =
     (if NumReturns a \<noteq> 1 then check_args as (Suc i) else Some i)"

text \<open>
  \<open>&(a.heads_[0])\<close> as a value: the entry it points to, \<open>None\<close> when \<open>heads_\<close> is empty
  and nothing is there to read. The null pointer is \<open>None\<close> as well.
\<close>

definition first_head :: "Symbol \<Rightarrow> DataEntry option" where
  "first_head a = (case heads a of [] \<Rightarrow> None | e # _ \<Rightarrow> Some e)"

type_synonym replace_plan = "((addr \<times> nat) \<times> DataEntry option) list"

text \<open>
  The body of the visitor's loop for the input \<open>i\<close> of \<open>node\<close>; an entry of the plan is
  the place \<open>(node, i)\<close> of the edge and the target.
\<close>

definition visit_edge_pos ::
  "heap \<Rightarrow> Symbol list \<Rightarrow> addr \<Rightarrow> nat \<Rightarrow>
   nat \<times> (addr \<rightharpoonup> DataEntry option) \<times> replace_plan \<Rightarrow>
   nat \<times> (addr \<rightharpoonup> DataEntry option) \<times> replace_plan" where
  "visit_edge_pos h args node i st =
     (case st of (arg_counter, replace_map, plan) \<Rightarrow>
        (let src = source (inputs (h ! node) ! i) in
         if is_variable (h ! src) then
           (case replace_map src of
              None \<Rightarrow>
                (if arg_counter < length args then
                   (let target = first_head (args ! arg_counter) in
                    (Suc arg_counter, replace_map(src \<mapsto> target),
                     plan @ [((node, i), target)]))
                 else (Suc arg_counter, replace_map, plan @ [((node, i), None)]))
            | Some target \<Rightarrow> (arg_counter, replace_map, plan @ [((node, i), target)]))
         else (arg_counter, replace_map, plan)))"

definition visit_node_pos ::
  "heap \<Rightarrow> Symbol list \<Rightarrow> addr \<Rightarrow>
   nat \<times> (addr \<rightharpoonup> DataEntry option) \<times> replace_plan \<Rightarrow>
   nat \<times> (addr \<rightharpoonup> DataEntry option) \<times> replace_plan" where
  "visit_node_pos h args node st =
     fold (visit_edge_pos h args node) [0 ..< length (inputs (h ! node))] st"

text \<open>\<open>*(kv.first) = *(kv.second)\<close> for every entry of the plan, in order.\<close>

fun apply_plan :: "replace_plan \<Rightarrow> heap \<Rightarrow> heap option" where
  "apply_plan [] h = Some h"
| "apply_plan (kv # plan) h =
     (case snd kv of
        None \<Rightarrow> None
      | Some e \<Rightarrow>
          apply_plan plan
            (h[fst (fst kv) := (h ! fst (fst kv))
                 \<lparr>inputs := (inputs (h ! fst (fst kv)))[snd (fst kv) := e]\<rparr>]))"

definition Compose :: "heap \<Rightarrow> Symbol \<Rightarrow> Symbol list \<Rightarrow> string \<Rightarrow> (error + unit) \<times> heap" where
  "Compose h s args nm =
     (if NumReturns s \<noteq> 1 then (Inl NotComposable, h)
      else
        (let hd0 = source (heads s ! 0) in
         if is_variable (h ! hd0) then (Inl NotComposable, h)
         else
           (let h1 = h[hd0 := (h ! hd0)\<lparr>name := nm\<rparr>] in
            case check_args args 0 of
              Some i \<Rightarrow> (Inl (UnsupportedTupleArgument (Inl i)), h1)
            | None \<Rightarrow>
                if Symbol_is_atomic h1 s then
                  (case op (h1 ! hd0) of
                     None \<Rightarrow> (Inl Undefined, h1)
                   | Some p \<Rightarrow>
                       (let req_args = op_ListArguments p in
                        if length args \<noteq> length req_args then
                          (Inl (ArityMismatch (length req_args) (length args)), h1)
                        else
                          (case those (map first_head args) of
                             None \<Rightarrow> (Inl Undefined, h1)
                           | Some es \<Rightarrow> (Inr (), h1[hd0 := (h1 ! hd0)\<lparr>inputs := es\<rparr>]))))
                else
                  (case DFSVisit h1 s of
                     None \<Rightarrow> (Inl Undefined, h1)
                   | Some nodes \<Rightarrow>
                       (case fold (visit_node_pos h1 args) nodes (0, Map.empty, []) of
                          (arg_counter, replace_map, plan) \<Rightarrow>
                            if length args \<noteq> arg_counter then
                              (Inl (ArityMismatch arg_counter (length args)), h1)
                            else
                              (case apply_plan plan h1 of
                                 None \<Rightarrow> (Inl Undefined, h1)
                               | Some h2 \<Rightarrow> (Inr (), h2)))))))"

subsection \<open>Compose with keyword arguments\<close>

text \<open>
  \<open>kwargs\<close> is an association list with distinct keys, in the order in which the
  C++ map is walked; \<open>kwargs.find\<close> is \<open>map_of\<close> and \<open>kwargs.size()\<close> the length.
  After the check of line 290 every value has one head, which \<open>heads arg ! 0\<close> reads.

  The loop of lines 324 to 329 fails at the first entry of \<open>dup_args\<close> whose count is not
  one. With two or more such names the one the program prints is the one the walk over
  the \<open>unordered_map\<close> meets first, which C++ leaves open; \<open>Compose_kw\<close> takes the one
  inserted first. The properties below hold for whichever name is reported: they say that
  the name is one with a count above one.
\<close>

fun bind_required ::
  "(string \<times> Symbol) list \<Rightarrow> string \<Rightarrow> string list \<Rightarrow> heap \<Rightarrow> DataEntry list \<times> nat \<times> heap" where
  "bind_required kwargs nm [] h = ([], 0, h)"
| "bind_required kwargs nm (req # reqs) h =
     (case map_of kwargs req of
        Some arg \<Rightarrow>
          (case bind_required kwargs nm reqs h of
             (es, nmatched, h') \<Rightarrow> (heads arg ! 0 # es, Suc nmatched, h'))
      | None \<Rightarrow>
          (case bind_required kwargs nm reqs
                  (h @ [new_Node None (if length nm = 0 then req else nm @ ''_'' @ req)]) of
             (es, nmatched, h') \<Rightarrow> (\<lparr>source = length h, index = 0\<rparr> # es, nmatched, h')))"

definition visit_edge_kw ::
  "heap \<Rightarrow> (string \<times> Symbol) list \<Rightarrow> addr \<Rightarrow> nat \<Rightarrow>
   nat \<times> addr set \<times> replace_plan \<Rightarrow> nat \<times> addr set \<times> replace_plan" where
  "visit_edge_kw h kwargs node i st =
     (case st of (nmatched, visited, plan) \<Rightarrow>
        (let src = source (inputs (h ! node) ! i) in
         if is_variable (h ! src) then
           (case map_of kwargs (name (h ! src)) of
              Some arg \<Rightarrow>
                (if src \<notin> visited then
                   (Suc nmatched, insert src visited, plan @ [((node, i), Some (heads arg ! 0))])
                 else (nmatched, visited, plan @ [((node, i), Some (heads arg ! 0))]))
            | None \<Rightarrow> (nmatched, visited, plan))
         else (nmatched, visited, plan)))"

definition visit_node_kw ::
  "heap \<Rightarrow> (string \<times> Symbol) list \<Rightarrow> addr \<Rightarrow>
   nat \<times> addr set \<times> replace_plan \<Rightarrow> nat \<times> addr set \<times> replace_plan" where
  "visit_node_kw h kwargs node st =
     fold (visit_edge_kw h kwargs node) [0 ..< length (inputs (h ! node))] st"

text \<open>Lines 361 to 366, the end of the keyword \<open>Compose\<close>.\<close>

definition report_unmatched ::
  "heap \<Rightarrow> Symbol \<Rightarrow> (string \<times> Symbol) list \<Rightarrow> nat \<Rightarrow> (error + unit) \<times> heap" where
  "report_unmatched h s kwargs nmatched =
     (if nmatched \<noteq> length kwargs then
        (case ListArguments h s of
           Inl e \<Rightarrow> (Inl e, h)
         | Inr cands \<Rightarrow>
             (case KeywordArgumentMismatch ''Symbol.Compose'' (map fst kwargs) cands of
                Some e \<Rightarrow> (Inl e, h)
              | None \<Rightarrow> (Inr (), h)))
      else (Inr (), h))"

definition Compose_kw ::
  "heap \<Rightarrow> Symbol \<Rightarrow> (string \<times> Symbol) list \<Rightarrow> string \<Rightarrow> (error + unit) \<times> heap" where
  "Compose_kw h s kwargs nm =
     (if NumReturns s \<noteq> 1 then (Inl NotComposable, h)
      else
        (let hd0 = source (heads s ! 0) in
         if is_variable (h ! hd0) then (Inl NotComposable, h)
         else
           (let h1 = h[hd0 := (h ! hd0)\<lparr>name := nm\<rparr>] in
            case find (\<lambda>kv. NumReturns (snd kv) \<noteq> 1) kwargs of
              Some kv \<Rightarrow> (Inl (UnsupportedTupleArgument (Inr (fst kv))), h1)
            | None \<Rightarrow>
                if Symbol_is_atomic h1 s then
                  (case op (h1 ! hd0) of
                     None \<Rightarrow> (Inl Undefined, h1)
                   | Some p \<Rightarrow>
                       (case bind_required kwargs nm (op_ListArguments p) h1 of
                          (es, nmatched, h2) \<Rightarrow>
                            (let h3 = h2[hd0 := (h2 ! hd0)\<lparr>inputs := es\<rparr>];
                                 h4 = (if nmatched \<noteq> length kwargs
                                       then h3[hd0 := (h3 ! hd0)\<lparr>inputs := []\<rparr>] else h3)
                             in report_unmatched h4 s kwargs nmatched)))
                else
                  (case FindDuplicateArgs h1 s of
                     Inl e \<Rightarrow> (Inl e, h1)
                   | Inr (dup_args, max_dup) \<Rightarrow>
                       (case (if max_dup > 1 then find (\<lambda>kv. snd kv \<noteq> 1) dup_args else None) of
                          Some kv \<Rightarrow> (Inl (DuplicateArgumentName (fst kv) (snd kv)), h1)
                        | None \<Rightarrow>
                            if max_dup \<noteq> 1 then (Inl (DuplicateArgumentName [] max_dup), h1)
                            else
                              (case DFSVisit h1 s of
                                 None \<Rightarrow> (Inl Undefined, h1)
                               | Some nodes \<Rightarrow>
                                   (case fold (visit_node_kw h1 kwargs) nodes (0, {}, []) of
                                      (nmatched, visited, plan) \<Rightarrow>
                                        if nmatched = length kwargs then
                                          (case apply_plan plan h1 of
                                             None \<Rightarrow> (Inl Undefined, h1)
                                           | Some h2 \<Rightarrow> report_unmatched h2 s kwargs nmatched)
                                        else report_unmatched h1 s kwargs nmatched)))))))"

text \<open>\<open>operator()\<close>: Copy, then Compose on the copy.\<close>

definition apply_positional ::
  "heap \<Rightarrow> Symbol \<Rightarrow> Symbol list \<Rightarrow> string \<Rightarrow> (error + Symbol) \<times> heap" where
  "apply_positional h s args nm =
     (case Copy h s of
        (Inl e, h') \<Rightarrow> (Inl e, h')
      | (Inr s', h') \<Rightarrow>
          (case Compose h' s' args nm of
             (Inl e, h'') \<Rightarrow> (Inl e, h'')
           | (Inr _, h'') \<Rightarrow> (Inr s', h'')))"

definition apply_keyword ::
  "heap \<Rightarrow> Symbol \<Rightarrow> (string \<times> Symbol) list \<Rightarrow> string \<Rightarrow> (error + Symbol) \<times> heap" where
  "apply_keyword h s kwargs nm =
     (case Copy h s of
        (Inl e, h') \<Rightarrow> (Inl e, h')
      | (Inr s', h') \<Rightarrow>
          (case Compose_kw h' s' kwargs nm of
             (Inl e, h'') \<Rightarrow> (Inl e, h'')
           | (Inr _, h'') \<Rightarrow> (Inr s', h'')))"


subsection \<open>Grad\<close>

text \<open>
  Modelled from the spec: \<open>StaticGraph\<close> and its \<open>MakeBackwardPass\<close> are outside
  symbol.cc. By section 6 of the spec the backward pass appends gradient nodes to the
  canonical graph and returns, for every argument, the node and output that hold its
  gradient. What it appends (\<open>new_nodes\<close>) and returns (\<open>arg_grads\<close>) are parameters of
  \<open>Grad\<close>; a canonical node is its name, its \<open>backward_source_id\<close> (\<open>-1\<close> for none) and
  its inputs.
\<close>

record StaticDataEntry =
  source_id :: nat
  entry_index :: nat

record StaticNode =
  static_name :: string
  backward_source_id :: int
  static_inputs :: "StaticDataEntry list"

text \<open>
  The loop of lines 394 to 406 over the new canonical nodes. \<open>shared_node\<close> is the table
  from canonical ids to nodes; reading it beyond its end is \<open>None\<close>.
\<close>

fun attach_nodes :: "StaticNode list \<Rightarrow> addr list \<Rightarrow> heap \<Rightarrow> (addr list \<times> heap) option" where
  "attach_nodes [] shared_node h = Some (shared_node, h)"
| "attach_nodes (it # its) shared_node h =
     (case (if backward_source_id it \<noteq> - 1 then
              (if 0 \<le> backward_source_id it \<and> nat (backward_source_id it) < length shared_node
               then Some (Some (shared_node ! nat (backward_source_id it))) else None)
            else Some None) of
        None \<Rightarrow> None
      | Some bs \<Rightarrow>
          (let shared_node' = shared_node @ [length h] in
           case those (map (\<lambda>e. if source_id e < length shared_node'
                                 then Some \<lparr>source = shared_node' ! source_id e, index = entry_index e\<rparr>
                                 else None) (static_inputs it)) of
             None \<Rightarrow> None
           | Some es \<Rightarrow>
               attach_nodes its shared_node'
                 (h @ [\<lparr>backward_source_node = bs, op = None, name = static_name it,
                        inputs = es\<rparr>])))"

fun grad_heads ::
  "addr list \<Rightarrow> StaticDataEntry list \<Rightarrow> (string \<rightharpoonup> nat) \<Rightarrow> string list \<Rightarrow> string list \<Rightarrow>
   string list \<Rightarrow> error + DataEntry list" where
  "grad_heads shared_node arg_grads arg_index arg_list wrt [] = Inr []"
| "grad_heads shared_node arg_grads arg_index arg_list wrt (nm # rest) =
     (case arg_index nm of
        Some i \<Rightarrow>
          (if i < length arg_grads \<and> source_id (arg_grads ! i) < length shared_node then
             (case grad_heads shared_node arg_grads arg_index arg_list wrt rest of
                Inl e \<Rightarrow> Inl e
              | Inr hs \<Rightarrow>
                  Inr (\<lparr>source = shared_node ! source_id (arg_grads ! i),
                        index = entry_index (arg_grads ! i)\<rparr> # hs))
           else Inl Undefined)
      | None \<Rightarrow>
          (case KeywordArgumentMismatch ''Symbol.Grad '' wrt arg_list of
             Some e \<Rightarrow> Inl e
           | None \<Rightarrow> grad_heads shared_node arg_grads arg_index arg_list wrt rest))"

definition Grad ::
  "heap \<Rightarrow> Symbol \<Rightarrow> string list \<Rightarrow> StaticNode list \<Rightarrow> StaticDataEntry list \<Rightarrow>
   (error + Symbol) \<times> heap" where
  "Grad h s wrt new_nodes arg_grads =
     (case DFSVisit h s of
        None \<Rightarrow> (Inl Undefined, h)
      | Some nodes \<Rightarrow>
          (case attach_nodes new_nodes nodes h of
             None \<Rightarrow> (Inl Undefined, h)
           | Some (shared_node, h') \<Rightarrow>
               (case ListArguments h' s of
                  Inl e \<Rightarrow> (Inl e, h')
                | Inr arg_list \<Rightarrow>
                    (case grad_heads shared_node arg_grads
                            (map_of (rev (zip arg_list [0 ..< length arg_list])))
                            arg_list wrt wrt of
                       Inl e \<Rightarrow> (Inl e, h')
                     | Inr hs \<Rightarrow> (Inr \<lparr>heads = hs\<rparr>, h')))))"

subsection \<open>Sample graphs\<close>

text \<open>
  Two operators, and the graphs the theorems below are evaluated on, every one built
  through the functions above. \<open>act_graph\<close> is \<open>act(x)\<close>: the atomic \<open>Activation\<close>
  composed with the variable \<open>x\<close> by keyword. \<open>act_grad\<close> is its gradient for \<open>x\<close>, with
  the two nodes the backward pass appends for it: the variable of the head gradient and
  the backward node of \<open>act\<close>.
\<close>

definition Activation :: OperatorProperty where
  "Activation = \<lparr>TypeString = ''Activation'', op_ListArguments = [''data''],
                  op_ListReturns = [''output''], NumVisibleReturns = 1\<rparr>"

definition FullyConnected :: OperatorProperty where
  "FullyConnected = \<lparr>TypeString = ''FullyConnected'', op_ListArguments = [''data'', ''weight''],
                      op_ListReturns = [''output''], NumVisibleReturns = 1\<rparr>"

definition act_graph :: "Symbol \<times> heap" where
  "act_graph =
     (case Create [] Activation of (f, h1) \<Rightarrow>
      case CreateVariable h1 ''x'' of (x, h2) \<Rightarrow>
        (f, snd (Compose_kw h2 f [(''data'', x)] ''act'')))"

definition act_grad :: "(error + Symbol) \<times> heap" where
  "act_grad =
     Grad (snd act_graph) (fst act_graph) [''x'']
       [\<lparr>static_name = ''act_0_grad'', backward_source_id = - 1, static_inputs = []\<rparr>,
        \<lparr>static_name = ''act_backward'', backward_source_id = 0,
          static_inputs = [\<lparr>source_id = 2, entry_index = 0\<rparr>, \<lparr>source_id = 1, entry_index = 0\<rparr>]\<rparr>]
       [\<lparr>source_id = 3, entry_index = 0\<rparr>]"

definition act_grad_symbol :: Symbol where
  "act_grad_symbol = (case fst act_grad of Inr g \<Rightarrow> g | Inl _ \<Rightarrow> \<lparr>heads = []\<rparr>)"

definition act_grad_heap :: heap where
  "act_grad_heap = snd act_grad"

text \<open>
  \<open>diamond_graph\<close> is \<open>fc(act(x), x)\<close>: the variable \<open>x\<close> is an input of \<open>act\<close> and of
  \<open>fc\<close>.
\<close>

definition diamond_graph :: "Symbol \<times> heap" where
  "diamond_graph =
     (case CreateVariable [] ''x'' of (x, h1) \<Rightarrow>
      case Create h1 Activation of (a, h2) \<Rightarrow>
      case Create (snd (Compose_kw h2 a [(''data'', x)] ''act'')) FullyConnected of (f, h3) \<Rightarrow>
        (f, snd (Compose_kw h3 f [(''data'', a), (''weight'', x)] ''fc'')))"

text \<open>
  \<open>twin_graph\<close> is \<open>fc(x, x)\<close> over two variables that are both named \<open>x\<close>; the
  second component holds the two variables.
\<close>

definition twin_graph :: "Symbol \<times> Symbol list \<times> heap" where
  "twin_graph =
     (case CreateVariable [] ''x'' of (x1, h1) \<Rightarrow>
      case CreateVariable h1 ''x'' of (x2, h2) \<Rightarrow>
      case Create h2 FullyConnected of (f, h3) \<Rightarrow>
        (f, [x1, x2], snd (Compose_kw h3 f [(''data'', x1), (''weight'', x2)] ''fc'')))"

definition twin_symbol :: Symbol where
  "twin_symbol = fst twin_graph"

definition twin_variables :: "Symbol list" where
  "twin_variables = fst (snd twin_graph)"

definition twin_heap :: heap where
  "twin_heap = snd (snd twin_graph)"

text \<open>
  \<open>fc_atomic\<close> is the atomic \<open>FullyConnected\<close>, before any \<open>Compose\<close>, together with two
  possible arguments: the variable \<open>x\<close> and the atomic \<open>Constant\<close>, an operator without
  arguments.
\<close>

definition Constant :: OperatorProperty where
  "Constant = \<lparr>TypeString = ''Constant'', op_ListArguments = [],
                op_ListReturns = [''output''], NumVisibleReturns = 1\<rparr>"

definition fc_atomic :: "Symbol \<times> Symbol list \<times> heap" where
  "fc_atomic =
     (case Create [] FullyConnected of (f, h1) \<Rightarrow>
      case CreateVariable h1 ''x'' of (x, h2) \<Rightarrow>
      case Create h2 Constant of (c, h3) \<Rightarrow> (f, [x, c], h3))"

definition fc_symbol :: Symbol where
  "fc_symbol = fst fc_atomic"

definition fc_variable :: Symbol where
  "fc_variable = fst (snd fc_atomic) ! 0"

definition fc_constant :: Symbol where
  "fc_constant = fst (snd fc_atomic) ! 1"

definition fc_heap :: heap where
  "fc_heap = snd (snd fc_atomic)"

text \<open>
  \<open>shared_graph\<close> is \<open>fc(x, x)\<close>: one variable node \<open>x\<close> at both input edges of \<open>fc\<close>;
  the second component is another variable, \<open>y\<close>.
\<close>

definition shared_graph :: "Symbol \<times> Symbol \<times> heap" where
  "shared_graph =
     (case CreateVariable [] ''x'' of (x, h1) \<Rightarrow>
      case CreateVariable h1 ''y'' of (y, h2) \<Rightarrow>
      case Create h2 FullyConnected of (f, h3) \<Rightarrow>
        (f, y, snd (Compose_kw h3 f [(''data'', x), (''weight'', x)] ''fc'')))"

definition shared_symbol :: Symbol where
  "shared_symbol = fst shared_graph"

definition shared_other :: Symbol where
  "shared_other = fst (snd shared_graph)"

definition shared_heap :: heap where
  "shared_heap = snd (snd shared_graph)"

text \<open>
  \<open>skip_graph\<close> is \<open>c = fc(b, a)\<close> with \<open>b = fc(a, w)\<close> and \<open>a = act(x)\<close>: the node
  \<open>a\<close> is the second input of \<open>c\<close> and the first input of \<open>b\<close>. The nodes are, by
  address, \<open>x\<close>, \<open>a\<close>, \<open>w\<close>, \<open>b\<close>, \<open>c\<close>.
\<close>

definition skip_graph :: "Symbol \<times> heap" where
  "skip_graph =
     (case CreateVariable [] ''x'' of (x, h1) \<Rightarrow>
      case Create h1 Activation of (a, h2) \<Rightarrow>
      case CreateVariable (snd (Compose_kw h2 a [(''data'', x)] ''a'')) ''w'' of (w, h3) \<Rightarrow>
      case Create h3 FullyConnected of (b, h4) \<Rightarrow>
      case Create (snd (Compose_kw h4 b [(''data'', a), (''weight'', w)] ''b'')) FullyConnected
        of (c, h5) \<Rightarrow>
        (c, snd (Compose_kw h5 c [(''data'', b), (''weight'', a)] ''c'')))"

subsection \<open>Well-formed stores, reachability\<close>

text \<open>
  A \<open>shared_ptr\<close> of the program points to a node: in a well-formed store every input
  edge does, and so does every head of a well-formed Symbol.
\<close>

definition wf_heap :: "heap \<Rightarrow> bool" where
  "wf_heap h = (\<forall>n \<in> set h. \<forall>e \<in> set (inputs n). source e < length h)"

definition wf_symbol :: "heap \<Rightarrow> Symbol \<Rightarrow> bool" where
  "wf_symbol h s = (\<forall>e \<in> set (heads s). source e < length h)"

definition node_sources :: "heap \<Rightarrow> addr \<Rightarrow> addr list" where
  "node_sources h a = map source (inputs (h ! a))"

definition edges :: "heap \<Rightarrow> (addr \<times> addr) set" where
  "edges h = {(a, b). a < length h \<and> b \<in> set (node_sources h a)}"

definition reachable :: "heap \<Rightarrow> Symbol \<Rightarrow> addr set" where
  "reachable h s = (edges h)\<^sup>* `` (source ` set (heads s))"

text \<open>
  The inputs of \<open>a\<close> that are not in the set \<open>visited\<close>, each once (at its last place
  among the inputs, which is the first the reversed loop meets).
\<close>

definition unmarked_inputs :: "heap \<Rightarrow> addr set \<Rightarrow> addr \<Rightarrow> addr list" where
  "unmarked_inputs h visited a = remdups (filter (\<lambda>x. x \<notin> visited) (node_sources h a))"

text \<open>The same graph at other addresses: \<open>h'\<close> holds at \<open>f a\<close> what \<open>h\<close> holds at \<open>a\<close>.\<close>

definition same_structure :: "(addr \<Rightarrow> addr) \<Rightarrow> heap \<Rightarrow> heap \<Rightarrow> bool" where
  "same_structure f h h' =
     (inj_on f {..< length h} \<and>
      (\<forall>a < length h. f a < length h' \<and> node_sources h' (f a) = map f (node_sources h a)))"

definition rename_symbol :: "(addr \<Rightarrow> addr) \<Rightarrow> Symbol \<Rightarrow> Symbol" where
  "rename_symbol f s = \<lparr>heads = map (\<lambda>e. \<lparr>source = f (source e), index = index e\<rparr>) (heads s)\<rparr>"

text \<open>
  The set \<open>visited\<close> at the moment the node that follows \<open>pre\<close> in the traversal is
  popped: the heads and the inputs of the nodes popped before.
\<close>

definition marked_before :: "heap \<Rightarrow> Symbol \<Rightarrow> addr list \<Rightarrow> addr set" where
  "marked_before h s pre = source ` set (heads s) \<union> (\<Union>m \<in> set pre. set (node_sources h m))"

text \<open>The edges that lead to a node not in \<open>V\<close>.\<close>

definition unmarked_edges :: "heap \<Rightarrow> addr set \<Rightarrow> (addr \<times> addr) set" where
  "unmarked_edges h V = {(a, b). (a, b) \<in> edges h \<and> b \<notin> V}"

text \<open>The store after \<open>heads_[0].source->name = name\<close>.\<close>

definition set_name :: "heap \<Rightarrow> addr \<Rightarrow> string \<Rightarrow> heap" where
  "set_name h a nm = h[a := (h ! a)\<lparr>name := nm\<rparr>]"

text \<open>The names of the variables among \<open>nodes\<close>, in order.\<close>

definition variable_names :: "heap \<Rightarrow> addr list \<Rightarrow> string list" where
  "variable_names h nodes = map (\<lambda>a. name (h ! a)) (filter (\<lambda>a. is_variable (h ! a)) nodes)"

text \<open>What \<open>FindDuplicateArgs\<close> has counted after the names \<open>vs\<close>.\<close>

definition counted :: "string list \<Rightarrow> (string \<times> int) list \<times> int \<Rightarrow> bool" where
  "counted vs st =
     (case st of (out, max_dup) \<Rightarrow>
        distinct (map fst out) \<and>
        (\<forall>nm. map_of out nm = (if nm \<in> set vs then Some (int (count_list vs nm)) else None)) \<and>
        1 \<le> max_dup \<and>
        (\<forall>kv \<in> set out. snd kv \<le> max_dup) \<and>
        (1 < max_dup \<longrightarrow> (\<exists>kv \<in> set out. snd kv = max_dup)))"

text \<open>
  A name of a free variable stands at two nodes of the graph of \<open>s\<close>.
\<close>

definition duplicate_argument :: "heap \<Rightarrow> Symbol \<Rightarrow> bool" where
  "duplicate_argument h s =
     (\<exists>a \<in> reachable h s. \<exists>b \<in> reachable h s.
        a \<noteq> b \<and> is_variable (h ! a) \<and> is_variable (h ! b) \<and> name (h ! a) = name (h ! b))"

text \<open>
  The name of the placeholder for the required name \<open>req\<close> under the group name \<open>nm\<close>,
  and the required names that are no key of \<open>kwargs\<close>.
\<close>

definition placeholder_name :: "string \<Rightarrow> string \<Rightarrow> string" where
  "placeholder_name nm req = (if length nm = 0 then req else nm @ ''_'' @ req)"

definition absent :: "(string \<times> Symbol) list \<Rightarrow> string \<Rightarrow> bool" where
  "absent kwargs req = (map_of kwargs req = None)"

text \<open>
  The slots \<open>bind_required\<close> fills for the required names \<open>reqs\<close>, when the store has
  \<open>n\<close> nodes: a name of \<open>kwargs\<close> gets the head of its value, another name the next new
  node.
\<close>

fun bound_slots :: "(string \<times> Symbol) list \<Rightarrow> string list \<Rightarrow> nat \<Rightarrow> DataEntry list" where
  "bound_slots kwargs [] n = []"
| "bound_slots kwargs (req # reqs) n =
     (case map_of kwargs req of
        Some arg \<Rightarrow> heads arg ! 0 # bound_slots kwargs reqs n
      | None \<Rightarrow> \<lparr>source = n, index = 0\<rparr> # bound_slots kwargs reqs (Suc n))"

text \<open>The store the atomic keyword \<open>Compose\<close> leaves when every key is matched.\<close>

definition bound_heap :: "heap \<Rightarrow> addr \<Rightarrow> (string \<times> Symbol) list \<Rightarrow> string \<Rightarrow> string list \<Rightarrow> heap" where
  "bound_heap h a kwargs nm reqs =
     (set_name h a nm @ map (\<lambda>r. new_Node None (placeholder_name nm r)) (filter (absent kwargs) reqs))
       [a := (set_name h a nm ! a)\<lparr>inputs := bound_slots kwargs reqs (length h)\<rparr>]"

text \<open>The address of the placeholder for the required name number \<open>i\<close>.\<close>

definition placeholder_address :: "heap \<Rightarrow> (string \<times> Symbol) list \<Rightarrow> string list \<Rightarrow> nat \<Rightarrow> addr" where
  "placeholder_address h kwargs reqs i = length h + length (filter (absent kwargs) (take i reqs))"

text \<open>
  The variables of \<open>nodes\<close> whose name is a key of \<open>kwargs\<close>; the count \<open>nmatched\<close> of the
  keyword \<open>Compose\<close> is the number of those it has met.
\<close>

definition matched_variables :: "heap \<Rightarrow> (string \<times> Symbol) list \<Rightarrow> addr list \<Rightarrow> addr set" where
  "matched_variables h kwargs nodes =
     {v \<in> set nodes. is_variable (h ! v) \<and> name (h ! v) \<in> fst ` set kwargs}"

definition kw_counted :: "addr set \<Rightarrow> nat \<times> addr set \<times> replace_plan \<Rightarrow> bool" where
  "kw_counted M st = (case st of (nmatched, visited, plan) \<Rightarrow>
      finite visited \<and> nmatched = card visited \<and> visited \<subseteq> M)"

text \<open>
  The places \<open>(node, i)\<close> of the input edges of \<open>nodes\<close>, in the order in which the
  visitor of \<open>Compose\<close> meets them; those that lead to a variable; the node an edge leads
  to; and the variables found, each at the place of its first occurrence.
\<close>

definition all_edges :: "heap \<Rightarrow> addr list \<Rightarrow> (addr \<times> nat) list" where
  "all_edges h nodes = concat (map (\<lambda>n. map (Pair n) [0 ..< length (inputs (h ! n))]) nodes)"

definition edge_source :: "heap \<Rightarrow> addr \<times> nat \<Rightarrow> addr" where
  "edge_source h e = source (inputs (h ! fst e) ! snd e)"

definition variable_edges :: "heap \<Rightarrow> addr list \<Rightarrow> (addr \<times> nat) list" where
  "variable_edges h nodes = filter (\<lambda>e. is_variable (h ! edge_source h e)) (all_edges h nodes)"

definition first_occurrences :: "'a list \<Rightarrow> 'a list" where
  "first_occurrences xs = rev (remdups (rev xs))"

definition found_variables :: "heap \<Rightarrow> addr list \<Rightarrow> addr list" where
  "found_variables h nodes = first_occurrences (map (edge_source h) (variable_edges h nodes))"

text \<open>What the visitor of the positional \<open>Compose\<close> holds after the edges \<open>es\<close>.\<close>

definition pos_matched ::
  "heap \<Rightarrow> Symbol list \<Rightarrow> (addr \<times> nat) list \<Rightarrow>
   nat \<times> (addr \<rightharpoonup> DataEntry option) \<times> replace_plan \<Rightarrow> bool" where
  "pos_matched h args es st =
     (case st of (arg_counter, replace_map, plan) \<Rightarrow>
        (let vs = first_occurrences (map (edge_source h) es) in
         (arg_counter \<le> length args \<longrightarrow>
            arg_counter = length vs \<and> dom replace_map = set vs \<and>
            (\<forall>k < length vs. replace_map (vs ! k) = Some (first_head (args ! k))) \<and>
            plan = map (\<lambda>e. (e, the (replace_map (edge_source h e)))) es) \<and>
         (length args < arg_counter \<longrightarrow> length args < length vs)))"

text \<open>One assignment of the plan, and the store after all of them.\<close>

definition write_edge :: "(addr \<times> nat) \<times> DataEntry option \<Rightarrow> heap \<Rightarrow> heap" where
  "write_edge kv h =
     h[fst (fst kv) := (h ! fst (fst kv))
         \<lparr>inputs := (inputs (h ! fst (fst kv)))[snd (fst kv) := the (snd kv)]\<rparr>]"

text \<open>
  The store \<open>h'\<close> is \<open>h\<close> with the head node renamed and with every edge to a variable
  led to the first head of the argument of that variable: the variable number \<open>k\<close> found
  gets the argument number \<open>k\<close>. Nothing else differs.
\<close>

definition rewired :: "heap \<Rightarrow> addr \<Rightarrow> string \<Rightarrow> addr list \<Rightarrow> Symbol list \<Rightarrow> heap \<Rightarrow> bool" where
  "rewired h hd0 nm nodes args h' =
     (length h' = length h \<and>
      (\<forall>a < length h.
         op (h' ! a) = op (h ! a) \<and>
         backward_source_node (h' ! a) = backward_source_node (h ! a) \<and>
         name (h' ! a) = name (set_name h hd0 nm ! a) \<and>
         length (inputs (h' ! a)) = length (inputs (h ! a)) \<and>
         (\<forall>i < length (inputs (h ! a)).
            ((a, i) \<notin> set (variable_edges h nodes) \<longrightarrow>
               inputs (h' ! a) ! i = inputs (h ! a) ! i) \<and>
            (\<forall>k < length (found_variables h nodes).
               (a, i) \<in> set (variable_edges h nodes) \<and>
               edge_source h (a, i) = found_variables h nodes ! k \<longrightarrow>
               inputs (h' ! a) ! i = heads (args ! k) ! 0))))"

text \<open>
  The new node of \<open>Copy\<close> for the node \<open>a\<close>, after the connecting loop: \<open>old_new\<close> maps
  the nodes of the traversal, in order, to the addresses behind the store, and every input
  of the new node leads to the new node of its source. \<open>copied\<close> is the store with the new
  nodes.
\<close>

definition copy_address :: "heap \<Rightarrow> addr list \<Rightarrow> addr \<Rightarrow> addr" where
  "copy_address h nodes a =
     the (map_of (zip nodes [length h ..< length h + length nodes]) a)"

definition copied_node :: "heap \<Rightarrow> addr list \<Rightarrow> addr \<Rightarrow> Node" where
  "copied_node h nodes a =
     \<lparr>backward_source_node = None, op = map_option op_Copy (op (h ! a)), name = name (h ! a),
      inputs = map (\<lambda>e. \<lparr>source = copy_address h nodes (source e), index = index e\<rparr>)
                 (inputs (h ! a))\<rparr>"

definition copied :: "heap \<Rightarrow> addr list \<Rightarrow> heap" where
  "copied h nodes = h @ map (copied_node h nodes) nodes"

text \<open>
  The same graph at other addresses, for the nodes of \<open>A\<close>, a set closed under the
  input edges.
\<close>

definition same_structure_on :: "(addr \<Rightarrow> addr) \<Rightarrow> addr set \<Rightarrow> heap \<Rightarrow> heap \<Rightarrow> bool" where
  "same_structure_on f A h h' =
     (inj_on f A \<and>
      (\<forall>a \<in> A. a < length h \<and> set (node_sources h a) \<subseteq> A \<and>
                f a < length h' \<and> node_sources h' (f a) = map f (node_sources h a)))"

section \<open>Properties\<close>

subsection \<open>DFSVisit visits every reachable node once\<close>

lemma dfs_loop_Cons:
  "dfs_loop h (b # st) V =
     (if b < length h
      then map_option ((#) b) (dfs_loop h (unmarked_inputs h V b @ st) (V \<union> set (node_sources h b)))
      else None)"
  by (simp add: push_unvisited_eq unmarked_inputs_def node_sources_def Let_def)

declare dfs_loop.simps(2) [simp del]

lemma dfs_loop_induct [case_names Nil Cons Dangling]:
  assumes "\<And>h V. P h [] V"
    and "\<And>h b st V. b < length h \<Longrightarrow>
           P h (unmarked_inputs h V b @ st) (V \<union> set (node_sources h b)) \<Longrightarrow> P h (b # st) V"
    and "\<And>h b st V. \<not> b < length h \<Longrightarrow> P h (b # st) V"
  shows "P h st V"
proof (induction h st V rule: dfs_loop.induct)
  case (1 h visited)
  show ?case by (rule assms(1))
next
  case (2 h b stack visited)
  show ?case
  proof (cases "b < length h")
    case True
    have "P h (fst (push_unvisited (rev (map source (inputs (h ! b)))) (stack, visited)))
            (snd (push_unvisited (rev (map source (inputs (h ! b)))) (stack, visited)))"
      by (rule 2 [OF True refl])
    then show ?thesis
      using assms(2) [OF True, of visited stack]
      by (simp add: push_unvisited_eq unmarked_inputs_def node_sources_def)
  next
    case False
    then show ?thesis by (rule assms(3))
  qed
qed

lemma set_unmarked_inputs [simp]:
  "set (unmarked_inputs h V b) = set (node_sources h b) - V"
  by (auto simp: unmarked_inputs_def)

lemma distinct_unmarked_inputs [simp]: "distinct (unmarked_inputs h V b)"
  by (simp add: unmarked_inputs_def)

lemma unmarked_edges_mono: "V \<subseteq> V' \<Longrightarrow> unmarked_edges h V' \<subseteq> unmarked_edges h V"
  by (auto simp: unmarked_edges_def)

lemma reach_unmarked_cases:
  "x \<in> (unmarked_edges h V)\<^sup>* `` A \<Longrightarrow> x \<in> A \<or> x \<notin> V"
proof -
  assume "x \<in> (unmarked_edges h V)\<^sup>* `` A"
  then obtain a where a: "a \<in> A" "(a, x) \<in> (unmarked_edges h V)\<^sup>*" by auto
  from a(2) show ?thesis
    by (cases rule: rtranclE) (use a(1) in \<open>auto simp: unmarked_edges_def\<close>)
qed

lemma reach_step:
  assumes b: "b < length h" and bV: "b \<in> V"
  shows "insert b ((unmarked_edges h (V \<union> set (node_sources h b)))\<^sup>*
                     `` (set (unmarked_inputs h V b) \<union> T))
         = (unmarked_edges h V)\<^sup>* `` insert b T"
    (is "insert b (?E'\<^sup>* `` (?N \<union> T)) = ?E\<^sup>* `` insert b T")
proof (intro equalityI subsetI)
  fix x assume "x \<in> insert b (?E'\<^sup>* `` (?N \<union> T))"
  then consider "x = b" | y where "y \<in> ?N \<union> T" "(y, x) \<in> ?E'\<^sup>*" by auto
  then show "x \<in> ?E\<^sup>* `` insert b T"
  proof cases
    case 1
    then show ?thesis by auto
  next
    case 2
    have sub: "?E' \<subseteq> ?E" by (rule unmarked_edges_mono) simp
    have yx: "(y, x) \<in> ?E\<^sup>*" using rtrancl_mono [OF sub] 2(2) by auto
    show ?thesis
    proof (cases "y \<in> T")
      case True
      then show ?thesis using yx by auto
    next
      case False
      then have "y \<in> ?N" using 2(1) by simp
      then have "(b, y) \<in> ?E" using b by (auto simp: unmarked_edges_def edges_def)
      then have "(b, x) \<in> ?E\<^sup>*" using yx by (rule converse_rtrancl_into_rtrancl)
      then show ?thesis by auto
    qed
  qed
next
  fix x assume "x \<in> ?E\<^sup>* `` insert b T"
  then obtain a where a: "a \<in> insert b T" and ax: "(a, x) \<in> ?E\<^sup>*" by auto
  from ax show "x \<in> insert b (?E'\<^sup>* `` (?N \<union> T))"
  proof (induction rule: rtrancl_induct)
    case base
    then show ?case using a by auto
  next
    case (step y z)
    from step(2) have yz: "(y, z) \<in> edges h" and zV: "z \<notin> V"
      by (auto simp: unmarked_edges_def)
    show ?case
    proof (cases "z \<in> set (node_sources h b)")
      case True
      then have "z \<in> ?N" using zV by simp
      then show ?thesis by auto
    next
      case False
      then have "y \<noteq> b" using yz by (auto simp: edges_def)
      with step(3) obtain w where w: "w \<in> ?N \<union> T" "(w, y) \<in> ?E'\<^sup>*" by auto
      have "(y, z) \<in> ?E'" using yz zV False by (auto simp: unmarked_edges_def)
      with w(2) have "(w, z) \<in> ?E'\<^sup>*" by (rule rtrancl_into_rtrancl)
      with w(1) show ?thesis by auto
    qed
  qed
qed

lemma filter_filter_subset:
  "(\<And>x. P x \<Longrightarrow> Q x) \<Longrightarrow> filter P (filter Q xs) = filter P xs"
  by (induction xs) auto

lemma dfs_loop_invariant:
  "dfs_loop h st V = Some r \<Longrightarrow> distinct st \<Longrightarrow> set st \<subseteq> V \<Longrightarrow>
   set r = (unmarked_edges h V)\<^sup>* `` set st \<and> distinct r \<and> filter (\<lambda>x. x \<in> set st) r = st"
proof (induction h st V arbitrary: r rule: dfs_loop_induct)
  case (Nil h V)
  then show ?case by simp
next
  case (Cons h b st V)
  let ?new = "unmarked_inputs h V b"
  let ?V' = "V \<union> set (node_sources h b)"
  from Cons.prems(1) Cons.hyps obtain r' where r: "r = b # r'"
    and r': "dfs_loop h (?new @ st) ?V' = Some r'"
    by (auto simp: dfs_loop_Cons)
  have d: "distinct (?new @ st)" using Cons.prems(2,3) by auto
  have s: "set (?new @ st) \<subseteq> ?V'" using Cons.prems(3) by auto
  from Cons.IH [OF r' d s]
  have set_r': "set r' = (unmarked_edges h ?V')\<^sup>* `` set (?new @ st)"
    and dist_r': "distinct r'"
    and filt_r': "filter (\<lambda>x. x \<in> set (?new @ st)) r' = ?new @ st" by auto
  have bV: "b \<in> V" using Cons.prems(3) by simp
  have set_r: "set r = (unmarked_edges h V)\<^sup>* `` set (b # st)"
    using reach_step [OF Cons.hyps bV, of "set st"] set_r' by (simp add: r)
  have b_notin: "b \<notin> set r'"
  proof
    assume "b \<in> set r'"
    then have "b \<in> set (?new @ st) \<or> b \<notin> ?V'"
      unfolding set_r' by (rule reach_unmarked_cases)
    then show False using bV Cons.prems(2) by auto
  qed
  have "filter (\<lambda>x. x \<in> set (b # st)) r' = filter (\<lambda>x. x \<in> set st) r'"
    using b_notin by (intro filter_cong) auto
  also have "\<dots> = filter (\<lambda>x. x \<in> set st) (filter (\<lambda>x. x \<in> set (?new @ st)) r')"
    by (rule filter_filter_subset [symmetric]) simp
  also have "\<dots> = filter (\<lambda>x. x \<in> set st) ?new @ filter (\<lambda>x. x \<in> set st) st"
    by (simp only: filt_r' filter_append)
  also have "filter (\<lambda>x. x \<in> set st) ?new = []"
    using Cons.prems(3) by (auto simp: filter_empty_conv)
  also have "filter (\<lambda>x. x \<in> set st) st = st" by simp
  finally have "filter (\<lambda>x. x \<in> set (b # st)) r = b # st" by (simp add: r)
  then show ?case using set_r dist_r' b_notin by (simp add: r)
next
  case (Dangling h b st V)
  then show ?case by (simp add: dfs_loop_Cons)
qed

lemma node_sources_wf:
  "wf_heap h \<Longrightarrow> b < length h \<Longrightarrow> set (node_sources h b) \<subseteq> {..< length h}"
  by (auto simp: wf_heap_def node_sources_def)

lemma dfs_loop_total:
  "wf_heap h \<Longrightarrow> set st \<subseteq> {..< length h} \<Longrightarrow> \<exists>r. dfs_loop h st V = Some r"
proof (induction h st V rule: dfs_loop_induct)
  case (Nil h V)
  then show ?case by simp
next
  case (Cons h b st V)
  have "set (unmarked_inputs h V b @ st) \<subseteq> {..< length h}"
    using node_sources_wf [OF Cons.prems(1) Cons.hyps] Cons.prems(2) by auto
  from Cons.IH [OF Cons.prems(1) this] show ?case
    using Cons.hyps by (auto simp: dfs_loop_Cons)
next
  case (Dangling h b st V)
  then show ?case by simp
qed

lemma DFSVisit_eq:
  "DFSVisit h s = dfs_loop h (remdups (rev (map source (heads s)))) (source ` set (heads s))"
  by (simp add: DFSVisit_def push_unvisited_eq Let_def)

lemma reach_from_marked:
  "(unmarked_edges h V)\<^sup>* `` V = (edges h)\<^sup>* `` V"
proof (intro equalityI subsetI)
  fix x assume "x \<in> (unmarked_edges h V)\<^sup>* `` V"
  moreover have "unmarked_edges h V \<subseteq> edges h" by (auto simp: unmarked_edges_def)
  ultimately show "x \<in> (edges h)\<^sup>* `` V" using rtrancl_mono by blast
next
  fix x assume "x \<in> (edges h)\<^sup>* `` V"
  then obtain a where a: "a \<in> V" and ax: "(a, x) \<in> (edges h)\<^sup>*" by auto
  from ax show "x \<in> (unmarked_edges h V)\<^sup>* `` V"
  proof (induction rule: rtrancl_induct)
    case base
    then show ?case using a by auto
  next
    case (step y z)
    show ?case
    proof (cases "z \<in> V")
      case True
      then show ?thesis by auto
    next
      case False
      with step(2) have "(y, z) \<in> unmarked_edges h V" by (simp add: unmarked_edges_def)
      with step(3) show ?thesis by (auto intro: rtrancl_into_rtrancl)
    qed
  qed
qed

lemma DFSVisit_total:
  "wf_heap h \<Longrightarrow> wf_symbol h s \<Longrightarrow> \<exists>nodes. DFSVisit h s = Some nodes"
  unfolding DFSVisit_eq by (rule dfs_loop_total) (auto simp: wf_symbol_def)

lemma DFSVisit_distinct: "DFSVisit h s = Some nodes \<Longrightarrow> distinct nodes"
  unfolding DFSVisit_eq using dfs_loop_invariant [of h _ "source ` set (heads s)" nodes] by simp

lemma DFSVisit_reachable: "DFSVisit h s = Some nodes \<Longrightarrow> set nodes = reachable h s"
  unfolding DFSVisit_eq reachable_def
  using dfs_loop_invariant [of h _ "source ` set (heads s)" nodes]
  by (simp add: reach_from_marked)

text \<open>The state of the loop at the moment a node is popped.\<close>

lemma dfs_loop_prefix:
  "dfs_loop h st V = Some (pre @ n # post) \<Longrightarrow> distinct st \<Longrightarrow> set st \<subseteq> V \<Longrightarrow>
   \<exists>st'. distinct (n # st') \<and> set (n # st') \<subseteq> V \<union> (\<Union>m \<in> set pre. set (node_sources h m)) \<and>
         dfs_loop h (n # st') (V \<union> (\<Union>m \<in> set pre. set (node_sources h m))) = Some (n # post)"
proof (induction pre arbitrary: st V)
  case Nil
  then obtain st' where "st = n # st'"
    by (cases st) (auto simp: dfs_loop_Cons split: if_splits)
  with Nil show ?case by auto
next
  case (Cons p pre)
  then obtain st0 where st: "st = p # st0" and p: "p < length h"
    and r: "dfs_loop h (unmarked_inputs h V p @ st0) (V \<union> set (node_sources h p)) = Some (pre @ n # post)"
    by (cases st) (auto simp: dfs_loop_Cons split: if_splits)
  have d: "distinct (unmarked_inputs h V p @ st0)" using Cons.prems(2,3) st by auto
  have s: "set (unmarked_inputs h V p @ st0) \<subseteq> V \<union> set (node_sources h p)"
    using Cons.prems(3) st by auto
  have "V \<union> set (node_sources h p) \<union> (\<Union>m \<in> set pre. set (node_sources h m))
        = V \<union> (\<Union>m \<in> set (p # pre). set (node_sources h m))" by auto
  with Cons.IH [OF r d s] show ?case by simp
qed

lemma dfs_loop_siblings:
  assumes "dfs_loop h (n # st) V = Some (n # post)" "distinct (n # st)" "set (n # st) \<subseteq> V"
  shows "filter (\<lambda>x. x \<in> set (unmarked_inputs h V n)) post = unmarked_inputs h V n"
proof -
  let ?new = "unmarked_inputs h V n"
  from assms(1) have r: "dfs_loop h (?new @ st) (V \<union> set (node_sources h n)) = Some post"
    by (auto simp: dfs_loop_Cons split: if_splits)
  have d: "distinct (?new @ st)" using assms(2,3) by auto
  have s: "set (?new @ st) \<subseteq> V \<union> set (node_sources h n)" using assms(3) by auto
  from dfs_loop_invariant [OF r d s]
  have f: "filter (\<lambda>x. x \<in> set (?new @ st)) post = ?new @ st" by simp
  have "filter (\<lambda>x. x \<in> set ?new) post
        = filter (\<lambda>x. x \<in> set ?new) (filter (\<lambda>x. x \<in> set (?new @ st)) post)"
    by (rule filter_filter_subset [symmetric]) simp
  also have "\<dots> = filter (\<lambda>x. x \<in> set ?new) ?new @ filter (\<lambda>x. x \<in> set ?new) st"
    by (simp only: f filter_append)
  also have "filter (\<lambda>x. x \<in> set ?new) st = []"
    using assms(3) by (auto simp: filter_empty_conv)
  finally show ?thesis by simp
qed

lemma DFSVisit_siblings:
  assumes "DFSVisit h s = Some (pre @ n # post)"
  shows "filter (\<lambda>x. x \<in> set (unmarked_inputs h
                    (source ` set (heads s) \<union> (\<Union>m \<in> set pre. set (node_sources h m))) n)) post
         = unmarked_inputs h (source ` set (heads s) \<union> (\<Union>m \<in> set pre. set (node_sources h m))) n"
proof -
  from assms have "dfs_loop h (remdups (rev (map source (heads s)))) (source ` set (heads s))
                   = Some (pre @ n # post)" by (simp add: DFSVisit_eq)
  from dfs_loop_prefix [OF this] obtain st' where
    a: "distinct (n # st')" and
    b: "set (n # st') \<subseteq> source ` set (heads s) \<union> (\<Union>m \<in> set pre. set (node_sources h m))" and
    c: "dfs_loop h (n # st') (source ` set (heads s) \<union> (\<Union>m \<in> set pre. set (node_sources h m)))
      = Some (n # post)" by auto
  show ?thesis by (rule dfs_loop_siblings [OF c a b])
qed

text \<open>The traversal depends on the structure only, not on the addresses.\<close>

lemma remdups_map_inj_on:
  "inj_on f (set xs) \<Longrightarrow> remdups (map f xs) = map f (remdups xs)"
  by (induction xs) (auto simp: inj_on_def)

lemma filter_map_image_inj_on:
  "inj_on f U \<Longrightarrow> set xs \<subseteq> U \<Longrightarrow> V \<subseteq> U \<Longrightarrow>
   filter (\<lambda>x. x \<notin> f ` V) (map f xs) = map f (filter (\<lambda>x. x \<notin> V) xs)"
  by (induction xs) (auto simp: inj_on_def)

lemma dfs_loop_same_structure:
  "same_structure f h h' \<Longrightarrow> wf_heap h \<Longrightarrow> set st \<subseteq> {..< length h} \<Longrightarrow> V \<subseteq> {..< length h} \<Longrightarrow>
   dfs_loop h' (map f st) (f ` V) = map_option (map f) (dfs_loop h st V)"
proof (induction h st V rule: dfs_loop_induct)
  case (Nil h V)
  then show ?case by simp
next
  case (Cons h b st V)
  let ?U = "{..< length h}"
  have inj: "inj_on f ?U" and fb: "f b < length h'"
    and src: "node_sources h' (f b) = map f (node_sources h b)"
    using Cons.prems(1) Cons.hyps by (auto simp: same_structure_def)
  have sub: "set (node_sources h b) \<subseteq> ?U" by (rule node_sources_wf [OF Cons.prems(2) Cons.hyps])
  have "filter (\<lambda>x. x \<notin> f ` V) (map f (node_sources h b))
        = map f (filter (\<lambda>x. x \<notin> V) (node_sources h b))"
    by (rule filter_map_image_inj_on [OF inj sub Cons.prems(4)])
  moreover have "inj_on f (set (filter (\<lambda>x. x \<notin> V) (node_sources h b)))"
    using inj sub by (auto intro: inj_on_subset)
  ultimately have new: "unmarked_inputs h' (f ` V) (f b) = map f (unmarked_inputs h V b)"
    by (simp add: unmarked_inputs_def src remdups_map_inj_on)
  have V': "f ` V \<union> set (node_sources h' (f b)) = f ` (V \<union> set (node_sources h b))"
    by (auto simp: src)
  have "dfs_loop h' (map f (unmarked_inputs h V b @ st)) (f ` (V \<union> set (node_sources h b)))
        = map_option (map f) (dfs_loop h (unmarked_inputs h V b @ st) (V \<union> set (node_sources h b)))"
    using Cons.prems sub by (intro Cons.IH) auto
  then show ?case
    using Cons.hyps fb by (simp add: dfs_loop_Cons new V' option.map_comp comp_def)
next
  case (Dangling h b st V)
  then show ?case by auto
qed

lemma DFSVisit_same_structure:
  assumes "same_structure f h h'" "wf_heap h" "wf_symbol h s"
  shows "DFSVisit h' (rename_symbol f s) = map_option (map f) (DFSVisit h s)"
proof -
  have sub: "source ` set (heads s) \<subseteq> {..< length h}"
    using assms(3) by (auto simp: wf_symbol_def)
  have inj: "inj_on f (set (rev (map source (heads s))))"
    using assms(1) sub by (auto simp: same_structure_def intro: inj_on_subset)
  have m: "map source (heads (rename_symbol f s)) = map f (map source (heads s))"
    by (simp add: rename_symbol_def comp_def)
  have "source ` set (heads (rename_symbol f s)) = set (map source (heads (rename_symbol f s)))"
    by simp
  also have "\<dots> = f ` (source ` set (heads s))" unfolding m by (simp add: image_image)
  finally have i: "source ` set (heads (rename_symbol f s)) = f ` (source ` set (heads s))" .
  have "remdups (rev (map source (heads (rename_symbol f s))))
        = map f (remdups (rev (map source (heads s))))"
    using remdups_map_inj_on [OF inj] by (simp add: m rev_map)
  then have "DFSVisit h' (rename_symbol f s)
        = dfs_loop h' (map f (remdups (rev (map source (heads s))))) (f ` (source ` set (heads s)))"
    by (simp only: DFSVisit_eq i)
  also have "\<dots> = map_option (map f) (dfs_loop h (remdups (rev (map source (heads s)))) (source ` set (heads s)))"
    using sub by (intro dfs_loop_same_structure [OF assms(1,2)]) auto
  finally show ?thesis by (simp add: DFSVisit_eq)
qed


text \<open>
  Claim C5. \<open>DFSVisit\<close> calls the visitor once on each node reachable from the heads
  through input edges, also where subgraphs are shared, and the order is determined by
  the structure of the graph: a node comes before its inputs that are not yet visited,
  and these come in their order from left to right.

  The order of the inputs fails where an input has been pushed by an earlier node. In
  \<open>skip_graph\<close> the inputs of \<open>b\<close> are \<open>a\<close> and \<open>w\<close>, in this order, and the visitor has
  seen neither when it is called on \<open>b\<close>, after \<open>c\<close>. But \<open>a\<close> is on the stack since \<open>c\<close>
  was popped, below \<open>b\<close>, and \<open>w\<close> is pushed above it: the visitor sees \<open>w\<close> before \<open>a\<close>.
\<close>

theorem DFSVisit_pushed_sibling_counterexample:
  "node_sources (snd skip_graph) 4 = [3, 1] \<and>
   node_sources (snd skip_graph) 3 = [1, 2] \<and>
   DFSVisit (snd skip_graph) (fst skip_graph) = Some ([4] @ 3 # [2, 1, 0]) \<and>
   filter (\<lambda>x. x \<notin> set ([4] @ [3])) (node_sources (snd skip_graph) 3) = [1, 2] \<and>
   filter (\<lambda>x. x \<in> set (node_sources (snd skip_graph) 3)) [2, 1, 0] = [2, 1]"
  by code_simp

text \<open>
  Claim C5, amended: "not yet visited" is to be read as the code's set \<open>visited\<close>, in
  which a node is from the moment it is pushed. For a well-formed store the traversal
  returns; its nodes are distinct and are the reachable ones; after a node \<open>n\<close> come, in
  this order, the inputs of \<open>n\<close> that were not in \<open>visited\<close> when \<open>n\<close> was popped (an
  input that stands twice among them counts at its last place); and the same graph at
  other addresses is traversed in the same order.
\<close>

theorem DFSVisit_once_in_order:
  assumes "wf_heap h" and "wf_symbol h s"
  shows "\<exists>nodes. DFSVisit h s = Some nodes \<and> distinct nodes \<and> set nodes = reachable h s \<and>
           (\<forall>pre n post. nodes = pre @ n # post \<longrightarrow>
              filter (\<lambda>x. x \<in> set (unmarked_inputs h (marked_before h s pre) n)) post
                = unmarked_inputs h (marked_before h s pre) n) \<and>
           (\<forall>f h'. same_structure f h h' \<longrightarrow>
              DFSVisit h' (rename_symbol f s) = Some (map f nodes))"
proof -
  from DFSVisit_total [OF assms] obtain nodes where n: "DFSVisit h s = Some nodes" by blast
  have "distinct nodes" using n by (rule DFSVisit_distinct)
  moreover have "set nodes = reachable h s" using n by (rule DFSVisit_reachable)
  moreover have "\<forall>pre m post. nodes = pre @ m # post \<longrightarrow>
              filter (\<lambda>x. x \<in> set (unmarked_inputs h (marked_before h s pre) m)) post
                = unmarked_inputs h (marked_before h s pre) m"
    using n DFSVisit_siblings unfolding marked_before_def by blast
  moreover have "\<forall>f h'. same_structure f h h' \<longrightarrow>
              DFSVisit h' (rename_symbol f s) = Some (map f nodes)"
    using DFSVisit_same_structure [OF _ assms] n by simp
  ultimately show ?thesis using n by blast
qed

lemma diamond_graph_value:
  "diamond_graph = (\<lparr>heads = [\<lparr>source = 2, index = 0\<rparr>]\<rparr>,
     [\<lparr>backward_source_node = None, op = None, name = ''x'', inputs = []\<rparr>,
      \<lparr>backward_source_node = None, op = Some Activation, name = ''act'',
        inputs = [\<lparr>source = 0, index = 0\<rparr>]\<rparr>,
      \<lparr>backward_source_node = None, op = Some FullyConnected, name = ''fc'',
        inputs = [\<lparr>source = 1, index = 0\<rparr>, \<lparr>source = 0, index = 0\<rparr>]\<rparr>])"
  by code_simp

theorem DFSVisit_once_in_order_witness:
  "wf_heap (snd diamond_graph) \<and> wf_symbol (snd diamond_graph) (fst diamond_graph) \<and>
   DFSVisit (snd diamond_graph) (fst diamond_graph) = Some [2, 1, 0] \<and>
   reachable (snd diamond_graph) (fst diamond_graph) = {0, 1, 2}"
proof -
  have w: "wf_heap (snd diamond_graph)" by code_simp
  have s: "wf_symbol (snd diamond_graph) (fst diamond_graph)" by code_simp
  have d: "DFSVisit (snd diamond_graph) (fst diamond_graph) = Some [2, 1, 0]" by code_simp
  from DFSVisit_once_in_order [OF w s] d
  have "reachable (snd diamond_graph) (fst diamond_graph) = set [2, 1, 0]" by auto
  then show ?thesis using w s d by auto
qed


subsection \<open>The argument check of the positional Compose\<close>

text \<open>
  Claim C1. Every argument of the positional \<open>Compose\<close> whose \<open>NumReturns()\<close> is not
  one makes the call fail with \<open>UnsupportedTupleArgument\<close>, and a call whose arguments
  all have one return passes the check.

  The code does the reverse: line 232 is \<open>CHECK_NE(args[i].NumReturns(), 1)\<close>, where the
  keyword overload has \<open>CHECK_EQ\<close> in line 290. On the atomic \<open>Activation\<close> the variable
  \<open>x\<close>, which has one return, is refused as argument 0; the group of \<open>x\<close> and \<open>x\<close>, which
  has two, is accepted; the keyword overload accepts \<open>x\<close>.
\<close>

theorem Compose_tuple_check_inverted:
  "(case Create [] Activation of (f, h1) \<Rightarrow>
    case CreateVariable h1 ''x'' of (x, h2) \<Rightarrow>
      (NumReturns x,
       fst (Compose h2 f [x] ''act''),
       NumReturns (CreateGroup [x, x]),
       fst (Compose h2 f [CreateGroup [x, x]] ''act''),
       fst (Compose_kw h2 f [(''data'', x)] ''act'')))
   = (1, Inl (UnsupportedTupleArgument (Inl 0)), 2, Inr (), Inr ())"
  by code_simp

subsection \<open>Copy and gradient nodes\<close>

text \<open>
  Claim C2. \<open>Copy()\<close> remaps the backward-source link of a gradient node through the map
  from old to new nodes, and the copied node stays a gradient node.

  \<open>Copy\<close> never reads \<open>backward_source_node\<close>: every node without operator is copied
  by \<open>Node(nullptr, name)\<close>. In the gradient of \<open>act(x)\<close> the head is the backward node
  of \<open>act\<close>, with \<open>act\<close> (node 0) as its backward source; the head of the copy has no
  backward source and is a variable.
\<close>

theorem Copy_drops_backward_source:
  "fst act_grad = Inr act_grad_symbol \<and>
   heads act_grad_symbol = [\<lparr>source = 3, index = 0\<rparr>] \<and>
   backward_source_node (act_grad_heap ! 3) = Some 0 \<and>
   \<not> is_variable (act_grad_heap ! 3) \<and>
   (case Copy act_grad_heap act_grad_symbol of (r, h') \<Rightarrow>
      r = Inr \<lparr>heads = [\<lparr>source = 4, index = 0\<rparr>]\<rparr> \<and>
      backward_source_node (h' ! 4) = None \<and>
      is_variable (h' ! 4))"
  by code_simp

text \<open>
  Claim C6. \<open>S.Copy()\<close> has the \<open>ListArguments()\<close> and \<open>ListReturns()\<close> of \<open>S\<close>, the same
  head order, shares no node with \<open>S\<close>, and composing into the copy leaves \<open>S\<close> unchanged.

  For the gradient of \<open>act(x)\<close> the copy lists another argument: its head, copied
  without the backward source, is a variable, so its name is listed too. The cause is that
  of claim C2.
\<close>

theorem Copy_changes_ListArguments_of_gradient:
  "ListArguments act_grad_heap act_grad_symbol = Inr [''act_0_grad'', ''x''] \<and>
   (case Copy act_grad_heap act_grad_symbol of
      (Inr s', h') \<Rightarrow> ListArguments h' s'
    | (Inl e, h') \<Rightarrow> Inl e) = Inr [''act_backward'', ''act_0_grad'', ''x'']"
  by code_simp

subsection \<open>The state after a failed Compose\<close>

text \<open>
  Claim C3. A \<open>Compose\<close> that fails a check leaves the graph as it was: no input edge
  is rewritten and no field of a node, the name of the head node included, is changed.

  Both overloads assign \<open>heads_[0].source->name = name\<close> (lines 230 and 288) before the
  checks of the arguments, and the keyword overload, which says of its inputs
  "if things goes wrong recover the old state", does not restore the name. On the atomic
  \<open>FullyConnected\<close>, whose node has the empty name, the keyword call with the unknown key
  \<open>bogus\<close> and the positional call with no argument both fail and leave the name \<open>fc\<close>.
\<close>

theorem Compose_failure_renames_head:
  "(case Create [] FullyConnected of (f, h1) \<Rightarrow>
    case CreateVariable h1 ''x'' of (x, h2) \<Rightarrow>
      (name (h2 ! source (heads f ! 0)),
       (case Compose_kw h2 f [(''bogus'', x)] ''fc'' of
          (r, h3) \<Rightarrow> (r, name (h3 ! source (heads f ! 0)), inputs (h3 ! source (heads f ! 0)))),
       (case Compose h2 f [] ''fc'' of
          (r, h3) \<Rightarrow> (r, name (h3 ! source (heads f ! 0)), inputs (h3 ! source (heads f ! 0))))))
   = ([],
      (Inl (UnmatchedKeyword ''Symbol.Compose'' ''bogus'' [''data'', ''weight'']), ''fc'', []),
      (Inl (ArityMismatch 2 0), ''fc'', []))"
  by code_simp


subsection \<open>The keyword Compose and duplicated argument names\<close>

text \<open>Renaming the head node changes neither the edges nor the traversal.\<close>

lemma dfs_loop_cong_sources:
  "length h' = length h \<Longrightarrow> (\<And>a. a < length h \<Longrightarrow> node_sources h' a = node_sources h a) \<Longrightarrow>
   dfs_loop h' st V = dfs_loop h st V"
proof (induction h st V rule: dfs_loop_induct)
  case (Nil h V)
  then show ?case by simp
next
  case (Cons h b st V)
  have "unmarked_inputs h' V b = unmarked_inputs h V b"
    using Cons.prems(2) [OF Cons.hyps] by (simp add: unmarked_inputs_def)
  moreover have "node_sources h' b = node_sources h b"
    by (rule Cons.prems(2) [OF Cons.hyps])
  moreover have "dfs_loop h' (unmarked_inputs h V b @ st) (V \<union> set (node_sources h b))
      = dfs_loop h (unmarked_inputs h V b @ st) (V \<union> set (node_sources h b))"
    by (rule Cons.IH [OF Cons.prems])
  ultimately show ?case
    using Cons.hyps Cons.prems(1) by (simp add: dfs_loop_Cons)
next
  case (Dangling h b st V)
  then show ?case by (simp add: dfs_loop_Cons)
qed

lemma DFSVisit_cong_sources:
  "length h' = length h \<Longrightarrow> (\<And>a. a < length h \<Longrightarrow> node_sources h' a = node_sources h a) \<Longrightarrow>
   DFSVisit h' s = DFSVisit h s"
  unfolding DFSVisit_eq by (rule dfs_loop_cong_sources)

lemma set_name_nth:
  "set_name h a nm ! b = (if b = a \<and> a < length h then (h ! a)\<lparr>name := nm\<rparr> else h ! b)"
  by (cases "a < length h") (auto simp: set_name_def nth_list_update list_update_beyond)

lemma length_set_name [simp]: "length (set_name h a nm) = length h"
  by (simp add: set_name_def)

lemma set_name_simps [simp]:
  "node_sources (set_name h a nm) b = node_sources h b"
  "inputs (set_name h a nm ! b) = inputs (h ! b)"
  "op (set_name h a nm ! b) = op (h ! b)"
  "backward_source_node (set_name h a nm ! b) = backward_source_node (h ! b)"
  "is_variable (set_name h a nm ! b) = is_variable (h ! b)"
  "is_atomic (set_name h a nm ! b) = is_atomic (h ! b)"
  "b \<noteq> a \<Longrightarrow> name (set_name h a nm ! b) = name (h ! b)"
  by (simp_all add: set_name_nth node_sources_def is_variable_def is_atomic_def)


lemma DFSVisit_set_name [simp]: "DFSVisit (set_name h a nm) s = DFSVisit h s"
  by (rule DFSVisit_cong_sources) simp_all

lemma Symbol_is_atomic_set_name [simp]:
  "Symbol_is_atomic (set_name h a nm) s = Symbol_is_atomic h s"
  by (simp add: Symbol_is_atomic_def)

lemma fold_count_variables:
  "fold (\<lambda>a st. if is_variable (h ! a) then count_arg (name (h ! a)) st else st) nodes st
   = fold count_arg (variable_names h nodes) st"
  by (induction nodes arbitrary: st) (simp_all add: variable_names_def)

lemma map_of_bump:
  "distinct (map fst out) \<Longrightarrow>
   map_of (map (\<lambda>kv. if fst kv = nm then (fst kv, snd kv + 1) else kv) out) k
   = (if k = nm then map_option (\<lambda>c. c + 1) (map_of out k) else map_of out k)"
  by (induction out) (auto simp: map_of_eq_None_iff image_iff)

lemma map_fst_bump:
  "map fst (map (\<lambda>kv. if fst kv = nm then (fst kv, snd kv + (1::int)) else kv) out) = map fst out"
  by (induction out) auto

lemma counted_step:
  assumes "counted vs st"
  shows "counted (vs @ [v]) (count_arg v st)"
proof -
  obtain out max_dup where st: "st = (out, max_dup)" by (cases st)
  from assms have d: "distinct (map fst out)"
    and m: "\<And>nm. map_of out nm = (if nm \<in> set vs then Some (int (count_list vs nm)) else None)"
    and one: "1 \<le> max_dup"
    and le: "\<And>kv. kv \<in> set out \<Longrightarrow> snd kv \<le> max_dup"
    and ex: "1 < max_dup \<Longrightarrow> \<exists>kv \<in> set out. snd kv = max_dup"
    by (auto simp: counted_def st)
  show ?thesis
  proof (cases "v \<in> set vs")
    case False
    then have n: "map_of out v = None" by (simp add: m)
    then have "v \<notin> fst ` set out" by (simp add: map_of_eq_None_iff)
    then show ?thesis
      using d m one le ex False n
      by (auto simp: counted_def st count_arg_def map_add_def)
  next
    case True
    let ?c = "int (count_list vs v)"
    let ?out = "map (\<lambda>kv. if fst kv = v then (fst kv, snd kv + 1) else kv) out"
    have s: "map_of out v = Some ?c" using True by (simp add: m)
    then have mem: "(v, ?c) \<in> set out" by (rule map_of_SomeD)
    have r: "count_arg v st = (?out, max max_dup (?c + 1))"
      by (simp add: count_arg_def st s)
    have d': "distinct (map fst ?out)" using d by (simp only: map_fst_bump)
    have m': "\<And>nm. map_of ?out nm
        = (if nm \<in> set (vs @ [v]) then Some (int (count_list (vs @ [v]) nm)) else None)"
      using True by (auto simp: map_of_bump [OF d] m)
    have le': "\<And>kv. kv \<in> set ?out \<Longrightarrow> snd kv \<le> max max_dup (?c + 1)"
    proof -
      fix kv assume "kv \<in> set ?out"
      then have "\<exists>kv0 \<in> set out. kv = (if fst kv0 = v then (fst kv0, snd kv0 + 1) else kv0)"
        unfolding set_map image_iff .
      then obtain kv0 where kv0: "kv0 \<in> set out"
        and kv: "kv = (if fst kv0 = v then (fst kv0, snd kv0 + 1) else kv0)" by blast
      show "snd kv \<le> max max_dup (?c + 1)"
      proof (cases "fst kv0 = v")
        case True
        then have "kv0 = (v, ?c)" using kv0 mem d
          by (metis eq_key_imp_eq_value prod.collapse)
        then show ?thesis using kv by simp
      next
        case False
        then show ?thesis using kv le [OF kv0] by simp
      qed
    qed
    have in1: "(v, ?c + 1) \<in> set ?out" using mem by force
    have ex': "1 < max max_dup (?c + 1) \<Longrightarrow> \<exists>kv \<in> set ?out. snd kv = max max_dup (?c + 1)"
    proof (cases "max_dup \<le> ?c + 1")
      case True
      then have "max max_dup (?c + 1) = ?c + 1" by simp
      then show ?thesis using in1 by (intro bexI [of _ "(v, ?c + 1)"]) simp_all
    next
      case False
      then have gt: "?c + 1 < max_dup" by simp
      then have "1 < max_dup" by linarith
      from ex [OF this] obtain kv where kv: "kv \<in> set out" "snd kv = max_dup" by blast
      have "fst kv \<noteq> v"
      proof
        assume "fst kv = v"
        then have "kv = (v, ?c)" using kv(1) mem d
          by (metis eq_key_imp_eq_value prod.collapse)
        then show False using kv(2) gt by simp
      qed
      then have "kv \<in> set ?out" using kv(1) by force
      moreover have "max max_dup (?c + 1) = max_dup" using gt by simp
      ultimately show ?thesis using kv(2) by (intro bexI [of _ kv]) simp_all
    qed
    show ?thesis
      unfolding r counted_def using d' m' one le' ex' by (simp add: max_def; blast)
  qed
qed

lemma counted_fold: "counted vs st \<Longrightarrow> counted (vs @ ws) (fold count_arg ws st)"
proof (induction ws arbitrary: vs st)
  case Nil
  then show ?case by simp
next
  case (Cons w ws)
  from Cons.IH [OF counted_step [OF Cons.prems, of w]] show ?case by simp
qed

lemma counted_init: "counted [] ([], 1)"
  by (simp add: counted_def)

lemma counted_all: "counted vs (fold count_arg vs ([], 1))"
  using counted_fold [OF counted_init, of vs] by simp

lemma not_distinct_count_list:
  "\<not> distinct xs \<Longrightarrow> \<exists>x \<in> set xs. 2 \<le> count_list xs x"
proof (induction xs)
  case Nil
  then show ?case by simp
next
  case (Cons y ys)
  show ?case
  proof (cases "y \<in> set ys")
    case True
    then have "0 < count_list ys y" using count_list_0_iff [of ys y] by simp
    then show ?thesis by auto
  next
    case False
    with Cons.prems have "\<not> distinct ys" by simp
    from Cons.IH [OF this] obtain x where x: "x \<in> set ys" "2 \<le> count_list ys x" by blast
    then have "x \<noteq> y" using False by auto
    then have "2 \<le> count_list (y # ys) x" using x(2) by simp
    then show ?thesis using x(1) by (intro bexI [of _ x]) simp_all
  qed
qed

lemma count_list_pos: "x \<in> set xs \<Longrightarrow> 1 \<le> count_list xs x"
  using count_list_0_iff [of xs x] by (cases "count_list xs x") auto

lemma variable_names_set_name:
  "\<not> is_variable (h ! a) \<Longrightarrow> variable_names (set_name h a nm) nodes = variable_names h nodes"
proof -
  assume nv: "\<not> is_variable (h ! a)"
  have "\<And>b. is_variable (h ! b) \<Longrightarrow> name (set_name h a nm ! b) = name (h ! b)"
    using nv by (intro set_name_simps) auto
  then show ?thesis
    unfolding variable_names_def by (simp cong: map_cong)
qed

lemma duplicate_argument_names:
  assumes "DFSVisit h s = Some nodes" "duplicate_argument h s"
  shows "\<not> distinct (variable_names h nodes)"
proof -
  from assms(2) obtain a b where ab: "a \<in> set nodes" "b \<in> set nodes" "a \<noteq> b"
    "is_variable (h ! a)" "is_variable (h ! b)" "name (h ! a) = name (h ! b)"
    unfolding duplicate_argument_def DFSVisit_reachable [OF assms(1), symmetric] by blast
  let ?vs = "filter (\<lambda>a. is_variable (h ! a)) nodes"
  have "a \<in> set ?vs" "b \<in> set ?vs" using ab by auto
  then have "\<not> inj_on (\<lambda>a. name (h ! a)) (set ?vs)" using ab(3,6) by (auto simp: inj_on_def)
  then show ?thesis by (simp add: variable_names_def distinct_map)
qed

text \<open>What \<open>FindDuplicateArgs\<close> and the checks of lines 323 to 331 find.\<close>

lemma duplicate_found:
  assumes "\<not> distinct vs" "fold count_arg vs ([], 1) = (dup_args, max_dup)"
  shows "1 < max_dup \<and>
         (\<exists>kv. find (\<lambda>kv. snd kv \<noteq> 1) dup_args = Some kv \<and> 1 < snd kv \<and>
               snd kv = int (count_list vs (fst kv)))"
proof -
  from counted_all [of vs] assms(2)
  have d: "distinct (map fst dup_args)"
    and m: "\<And>nm. map_of dup_args nm = (if nm \<in> set vs then Some (int (count_list vs nm)) else None)"
    and le: "\<And>kv. kv \<in> set dup_args \<Longrightarrow> snd kv \<le> max_dup"
    by (auto simp: counted_def)
  from not_distinct_count_list [OF assms(1)] obtain x where x: "x \<in> set vs" "2 \<le> count_list vs x"
    by blast
  then have "map_of dup_args x = Some (int (count_list vs x))" by (simp add: m)
  then have mem: "(x, int (count_list vs x)) \<in> set dup_args" by (rule map_of_SomeD)
  from le [OF mem] x(2) have big: "1 < max_dup" by simp
  have "\<exists>kv \<in> set dup_args. snd kv \<noteq> 1" using mem x(2) by force
  then obtain kv where f: "find (\<lambda>kv. snd kv \<noteq> 1) dup_args = Some kv"
    by (cases "find (\<lambda>kv. snd kv \<noteq> 1) dup_args") (auto simp: find_None_iff)
  then have kv: "kv \<in> set dup_args" "snd kv \<noteq> 1"
    by (auto simp: find_Some_iff)
  then have "map_of dup_args (fst kv) = Some (snd kv)" using d by simp
  then have c: "fst kv \<in> set vs" "snd kv = int (count_list vs (fst kv))"
    by (auto simp: m split: if_splits)
  from count_list_pos [OF c(1)] kv(2) c(2) have "1 < snd kv" by linarith
  with big f c(2) show ?thesis by blast
qed


lemma twin_graph_value:
  "twin_graph = (\<lparr>heads = [\<lparr>source = 2, index = 0\<rparr>]\<rparr>,
     [\<lparr>heads = [\<lparr>source = 0, index = 0\<rparr>]\<rparr>, \<lparr>heads = [\<lparr>source = 1, index = 0\<rparr>]\<rparr>],
     [\<lparr>backward_source_node = None, op = None, name = ''x'', inputs = []\<rparr>,
      \<lparr>backward_source_node = None, op = None, name = ''x'', inputs = []\<rparr>,
      \<lparr>backward_source_node = None, op = Some FullyConnected, name = ''fc'',
        inputs = [\<lparr>source = 0, index = 0\<rparr>, \<lparr>source = 1, index = 0\<rparr>]\<rparr>])"
  by code_simp

lemma twin_duplicate_argument: "duplicate_argument twin_heap twin_symbol"
proof -
  have "DFSVisit twin_heap twin_symbol = Some [2, 0, 1]" by code_simp
  then have "set [2, 0, 1] = reachable twin_heap twin_symbol" by (rule DFSVisit_reachable)
  then have r: "reachable twin_heap twin_symbol = set [2, 0, 1]" by (rule sym)
  have v: "is_variable (twin_heap ! 0) \<and> is_variable (twin_heap ! 1) \<and>
        name (twin_heap ! 0) = name (twin_heap ! 1)" by code_simp
  have "0 \<in> set [2, 0, 1::nat]" "1 \<in> set [2, 0, 1::nat]" "(0::nat) \<noteq> 1" by simp_all
  with v show ?thesis
    unfolding duplicate_argument_def r by blast
qed


text \<open>
  Claim C9. The keyword \<open>Compose\<close> on a composite Symbol with one return, in whose
  graph a name of a free variable stands at more than one variable node, fails with
  \<open>DuplicateArgumentName\<close> before any rewrite, also when the duplicated name is none of
  the keys.

  The check of the values comes first in the code (line 290): with a value of two returns
  the call on such a graph fails with \<open>UnsupportedTupleArgument\<close>.
\<close>

theorem Compose_kw_tuple_before_duplicate_counterexample:
  "NumReturns twin_symbol = 1 \<and> \<not> Symbol_is_atomic twin_heap twin_symbol \<and>
   duplicate_argument twin_heap twin_symbol \<and>
   fst (Compose_kw twin_heap twin_symbol [(''y'', CreateGroup twin_variables)] ''g'')
     = Inl (UnsupportedTupleArgument (Inr ''y''))"
proof -
  have "NumReturns twin_symbol = 1 \<and> \<not> Symbol_is_atomic twin_heap twin_symbol \<and>
    fst (Compose_kw twin_heap twin_symbol [(''y'', CreateGroup twin_variables)] ''g'')
     = Inl (UnsupportedTupleArgument (Inr ''y''))" by code_simp
  with twin_duplicate_argument show ?thesis by simp
qed




text \<open>
  Claim C9, amended: when moreover every value of \<open>kwargs\<close> has one return, the call
  fails with \<open>DuplicateArgumentName\<close>, for a name that stands at \<open>c > 1\<close> variable
  nodes, and the store is the one before the call but for the name of the head node: no
  edge is rewritten.
\<close>

theorem Compose_kw_duplicate_argument:
  assumes "wf_heap h" and "wf_symbol h s"
    and "NumReturns s = 1"
    and "\<not> is_variable (h ! source (heads s ! 0))"
    and "\<not> Symbol_is_atomic h s"
    and "\<forall>kv \<in> set kwargs. NumReturns (snd kv) = 1"
    and "duplicate_argument h s"
  shows "\<exists>dup c. 1 < c \<and>
           Compose_kw h s kwargs nm
             = (Inl (DuplicateArgumentName dup c), set_name h (source (heads s ! 0)) nm) \<and>
           (\<exists>nodes. DFSVisit h s = Some nodes \<and> c = int (count_list (variable_names h nodes) dup))"
proof -
  let ?hd = "source (heads s ! 0)"
  let ?h1 = "set_name h ?hd nm"
  from DFSVisit_total [OF assms(1,2)] obtain nodes where n: "DFSVisit h s = Some nodes" by blast
  have nd: "\<not> distinct (variable_names h nodes)"
    by (rule duplicate_argument_names [OF n assms(7)])
  obtain dup_args max_dup where
    f: "fold count_arg (variable_names h nodes) ([], 1) = (dup_args, max_dup)"
    by (cases "fold count_arg (variable_names h nodes) ([], 1)")
  from duplicate_found [OF nd f] obtain kv where big: "1 < max_dup"
    and kv: "find (\<lambda>kv. snd kv \<noteq> 1) dup_args = Some kv" "1 < snd kv"
      "snd kv = int (count_list (variable_names h nodes) (fst kv))" by blast
  have "fold (\<lambda>a st. if is_variable (?h1 ! a) then count_arg (name (?h1 ! a)) st else st)
          nodes ([], 1) = (dup_args, max_dup)"
    by (simp only: fold_count_variables variable_names_set_name [OF assms(4)] f)
  then have fd: "FindDuplicateArgs ?h1 s = Inr (dup_args, max_dup)"
    unfolding FindDuplicateArgs_def by (simp only: DFSVisit_set_name n option.case)
  have t: "find (\<lambda>kv. NumReturns (snd kv) \<noteq> 1) kwargs = None"
    using assms(6) by (auto simp: find_None_iff)
  have "Compose_kw h s kwargs nm = (Inl (DuplicateArgumentName (fst kv) (snd kv)), ?h1)"
    using assms(3,4,5) big kv(1) t fd
    by (simp add: Compose_kw_def Let_def set_name_def [symmetric])
  with kv(2,3) n show ?thesis by blast
qed

theorem Compose_kw_duplicate_argument_witness:
  "wf_heap twin_heap \<and> wf_symbol twin_heap twin_symbol \<and> NumReturns twin_symbol = 1 \<and>
   \<not> is_variable (twin_heap ! source (heads twin_symbol ! 0)) \<and>
   \<not> Symbol_is_atomic twin_heap twin_symbol \<and>
   NumReturns (twin_variables ! 0) = 1 \<and>
   duplicate_argument twin_heap twin_symbol \<and>
   Compose_kw twin_heap twin_symbol [(''y'', twin_variables ! 0)] ''g''
     = (Inl (DuplicateArgumentName ''x'' 2), set_name twin_heap 2 ''g'') \<and>
   map inputs (set_name twin_heap 2 ''g'') = map inputs twin_heap"
proof -
  have a: "wf_heap twin_heap" "wf_symbol twin_heap twin_symbol" "NumReturns twin_symbol = 1"
    "\<not> is_variable (twin_heap ! source (heads twin_symbol ! 0))"
    "\<not> Symbol_is_atomic twin_heap twin_symbol"
    by code_simp+
  have k: "\<forall>kv \<in> set [(''y'', twin_variables ! 0)]. NumReturns (snd kv) = 1" by code_simp
  have n: "NumReturns (twin_variables ! 0) = 1" by code_simp
  have v: "DFSVisit twin_heap twin_symbol = Some [2, 0, 1]" by code_simp
  have c: "variable_names twin_heap [2, 0, 1] = [''x'', ''x'']" by code_simp
  have hd: "source (heads twin_symbol ! 0) = 2" by code_simp
  have i: "map inputs (set_name twin_heap 2 ''g'') = map inputs twin_heap" by code_simp
  from Compose_kw_duplicate_argument [OF a k twin_duplicate_argument, of "''g''"]
  obtain dup c nodes where d: "1 < c"
    "Compose_kw twin_heap twin_symbol [(''y'', twin_variables ! 0)] ''g''
       = (Inl (DuplicateArgumentName dup c), set_name twin_heap (source (heads twin_symbol ! 0)) ''g'')"
    "DFSVisit twin_heap twin_symbol = Some nodes"
    "c = int (count_list (variable_names twin_heap nodes) dup)"
    by blast
  from d(3) v have "nodes = [2, 0, 1]" by simp
  with d(4) have e: "c = int (count_list [''x'', ''x''] dup)" by (simp only: c)
  have "dup = ''x'' \<and> c = 2"
  proof (cases "dup = ''x''")
    case True
    then show ?thesis using e by simp
  next
    case False
    then have "count_list [''x'', ''x''] dup = 0" by (intro count_notin) simp
    then show ?thesis using d(1) e by simp
  qed
  with d(2) have "Compose_kw twin_heap twin_symbol [(''y'', twin_variables ! 0)] ''g''
       = (Inl (DuplicateArgumentName ''x'' 2), set_name twin_heap 2 ''g'')" by (simp only: hd)
  with a n i twin_duplicate_argument show ?thesis by simp
qed

subsection \<open>The keyword Compose on an atomic Symbol\<close>

lemma bind_required_eq:
  "bind_required kwargs nm reqs h =
     (bound_slots kwargs reqs (length h),
      length (filter (\<lambda>r. \<not> absent kwargs r) reqs),
      h @ map (\<lambda>r. new_Node None (placeholder_name nm r)) (filter (absent kwargs) reqs))"
  by (induction reqs arbitrary: h) (auto simp: absent_def placeholder_name_def split: option.splits)

lemma length_bound_slots [simp]: "length (bound_slots kwargs reqs n) = length reqs"
  by (induction reqs arbitrary: n) (auto split: option.splits)

lemma bound_slots_nth:
  "i < length reqs \<Longrightarrow>
   bound_slots kwargs reqs n ! i =
     (case map_of kwargs (reqs ! i) of
        Some arg \<Rightarrow> heads arg ! 0
      | None \<Rightarrow> \<lparr>source = n + length (filter (absent kwargs) (take i reqs)), index = 0\<rparr>)"
proof (induction reqs arbitrary: n i)
  case Nil
  then show ?case by simp
next
  case (Cons r reqs)
  show ?case
  proof (cases i)
    case 0
    then show ?thesis by (simp split: option.splits)
  next
    case (Suc j)
    then have "j < length reqs" using Cons.prems by simp
    from Cons.IH [OF this] show ?thesis
      by (auto simp: Suc absent_def split: option.splits)
  qed
qed

lemma filter_take_less_length:
  "i < length xs \<Longrightarrow> P (xs ! i) \<Longrightarrow> length (filter P (take i xs)) < length (filter P xs)"
proof -
  assume i: "i < length xs" and p: "P (xs ! i)"
  have "xs = take i xs @ xs ! i # drop (Suc i) xs" using i by (rule id_take_nth_drop)
  then have "filter P xs = filter P (take i xs) @ xs ! i # filter P (drop (Suc i) xs)"
    using p by (metis filter.simps(2) filter_append)
  then show ?thesis by simp
qed

lemma filter_take_nth:
  "i < length xs \<Longrightarrow> P (xs ! i) \<Longrightarrow> filter P xs ! length (filter P (take i xs)) = xs ! i"
proof -
  assume i: "i < length xs" and p: "P (xs ! i)"
  have "xs = take i xs @ xs ! i # drop (Suc i) xs" using i by (rule id_take_nth_drop)
  then have "filter P xs = filter P (take i xs) @ xs ! i # filter P (drop (Suc i) xs)"
    using p by (metis filter.simps(2) filter_append)
  then show ?thesis by (simp add: nth_append)
qed

lemma matched_count:
  assumes "distinct reqs" "distinct (map fst kwargs)" "set (map fst kwargs) \<subseteq> set reqs"
  shows "length (filter (\<lambda>r. \<not> absent kwargs r) reqs) = length kwargs"
proof -
  have "\<And>r. (\<not> absent kwargs r) = (r \<in> set (map fst kwargs))"
    by (simp add: absent_def map_of_eq_None_iff)
  then have "filter (\<lambda>r. \<not> absent kwargs r) reqs = filter (\<lambda>r. r \<in> set (map fst kwargs)) reqs"
    by simp
  moreover have "distinct (filter (\<lambda>r. r \<in> set (map fst kwargs)) reqs)"
    using assms(1) by simp
  then have "card (set (filter (\<lambda>r. r \<in> set (map fst kwargs)) reqs))
      = length (filter (\<lambda>r. r \<in> set (map fst kwargs)) reqs)"
    by (rule distinct_card)
  moreover have "set (filter (\<lambda>r. r \<in> set (map fst kwargs)) reqs) = set (map fst kwargs)"
    using assms(3) by auto
  moreover have "card (set (map fst kwargs)) = length (map fst kwargs)"
    using assms(2) by (rule distinct_card)
  ultimately show ?thesis by simp
qed

lemma atomic_head:
  assumes "NumReturns s = 1" "Symbol_is_atomic h s"
  shows "inputs (h ! source (heads s ! 0)) = []" "op (h ! source (heads s ! 0)) \<noteq> None"
    "\<not> is_variable (h ! source (heads s ! 0))"
  using assms by (auto simp: Symbol_is_atomic_def is_atomic_def is_variable_def)

lemma head_valid: "NumReturns s = 1 \<Longrightarrow> wf_symbol h s \<Longrightarrow> source (heads s ! 0) < length h"
  by (auto simp: NumReturns_def wf_symbol_def)

lemma Compose_kw_atomic_success:
  assumes "wf_symbol h s" "NumReturns s = 1" "Symbol_is_atomic h s"
    and "op (h ! source (heads s ! 0)) = Some p"
    and "\<forall>kv \<in> set kwargs. NumReturns (snd kv) = 1"
    and "distinct (map fst kwargs)" "distinct (op_ListArguments p)"
    and "set (map fst kwargs) \<subseteq> set (op_ListArguments p)"
  shows "Compose_kw h s kwargs nm
         = (Inr (), bound_heap h (source (heads s ! 0)) kwargs nm (op_ListArguments p))"
proof -
  let ?hd = "source (heads s ! 0)"
  let ?h1 = "set_name h ?hd nm"
  have hd: "?hd < length h" by (rule head_valid [OF assms(2,1)])
  have nv: "\<not> is_variable (h ! ?hd)" by (rule atomic_head(3) [OF assms(2,3)])
  have t: "find (\<lambda>kv. NumReturns (snd kv) \<noteq> 1) kwargs = None"
    using assms(5) by (auto simp: find_None_iff)
  have at: "Symbol_is_atomic ?h1 s" using assms(3) by simp
  have op1: "op (?h1 ! ?hd) = Some p" using assms(4) by simp
  have m: "length (filter (\<lambda>r. \<not> absent kwargs r) (op_ListArguments p)) = length kwargs"
    by (rule matched_count [OF assms(7,6,8)])
  have nth: "(?h1 @ map (\<lambda>r. new_Node None (placeholder_name nm r))
                    (filter (absent kwargs) (op_ListArguments p))) ! ?hd = ?h1 ! ?hd"
    using hd by (simp add: nth_append)
  show ?thesis
    using assms(2) nv t at op1
    by (simp add: Compose_kw_def Let_def set_name_def [symmetric] bind_required_eq m
        report_unmatched_def bound_heap_def nth)
qed

lemma length_bound_heap [simp]:
  "length (bound_heap h a kwargs nm reqs) = length h + length (filter (absent kwargs) reqs)"
  by (simp add: bound_heap_def)

lemma bound_heap_head:
  "a < length h \<Longrightarrow>
   bound_heap h a kwargs nm reqs ! a = (h ! a)\<lparr>name := nm, inputs := bound_slots kwargs reqs (length h)\<rparr>"
  by (simp add: bound_heap_def set_name_def)

lemma bound_heap_old:
  "b < length h \<Longrightarrow> b \<noteq> a \<Longrightarrow> bound_heap h a kwargs nm reqs ! b = h ! b"
  by (simp add: bound_heap_def nth_append set_name_nth)

lemma bound_heap_new:
  "a < length h \<Longrightarrow> k < length (filter (absent kwargs) reqs) \<Longrightarrow>
   bound_heap h a kwargs nm reqs ! (length h + k)
     = new_Node None (placeholder_name nm (filter (absent kwargs) reqs ! k))"
  by (simp add: bound_heap_def nth_append)

lemma bound_slots_sources:
  assumes "\<forall>kv \<in> set kwargs. source (heads (snd kv) ! 0) < n0" "n0 \<le> n"
  shows "filter (\<lambda>a. n0 \<le> a) (map source (bound_slots kwargs reqs n))
         = [n ..< n + length (filter (absent kwargs) reqs)]"
  using assms(2)
proof (induction reqs arbitrary: n)
  case Nil
  then show ?case by simp
next
  case (Cons r reqs)
  show ?case
  proof (cases "map_of kwargs r")
    case None
    let ?m = "length (filter (absent kwargs) reqs)"
    have "n0 \<le> Suc n" using Cons.prems by simp
    from Cons.IH [OF this]
    have ih: "filter (\<lambda>a. n0 \<le> a) (map source (bound_slots kwargs reqs (Suc n)))
              = [Suc n ..< Suc n + ?m]" .
    have "[n ..< n + Suc ?m] = n # [Suc n ..< n + Suc ?m]" by (rule upt_conv_Cons) simp
    then have u: "[n ..< n + Suc ?m] = n # [Suc n ..< Suc n + ?m]" by simp
    have a: "absent kwargs r" using None by (simp add: absent_def)
    have "filter (\<lambda>a. n0 \<le> a) (map source (bound_slots kwargs (r # reqs) n))
          = n # filter (\<lambda>a. n0 \<le> a) (map source (bound_slots kwargs reqs (Suc n)))"
      using None Cons.prems by simp
    also have "\<dots> = [n ..< n + Suc ?m]" by (simp only: ih u)
    finally show ?thesis using a by simp
  next
    case (Some arg)
    then have "(r, arg) \<in> set kwargs" by (rule map_of_SomeD)
    then have "source (heads arg ! 0) < n0" using assms(1) by force
    then show ?thesis using Some Cons.IH [OF Cons.prems] by (simp add: absent_def)
  qed
qed

lemma bound_slots_set:
  "set (map source (bound_slots kwargs reqs n))
   \<subseteq> (\<lambda>kv. source (heads (snd kv) ! 0)) ` set kwargs \<union> {n ..< n + length (filter (absent kwargs) reqs)}"
proof (induction reqs arbitrary: n)
  case Nil
  then show ?case by simp
next
  case (Cons r reqs)
  show ?case
  proof (cases "map_of kwargs r")
    case None
    then show ?thesis using Cons.IH [of "Suc n"] by (auto simp: absent_def)
  next
    case (Some arg)
    then have "(r, arg) \<in> set kwargs" by (rule map_of_SomeD)
    then show ?thesis using Some Cons.IH [of n] by (force simp: absent_def)
  qed
qed

lemma reachable_bound:
  assumes "wf_heap h" "wf_symbol h s"
  shows "reachable h s \<subseteq> {..< length h}"
proof
  fix x assume "x \<in> reachable h s"
  then obtain a where a: "a \<in> source ` set (heads s)" and ax: "(a, x) \<in> (edges h)\<^sup>*"
    by (auto simp: reachable_def)
  from ax show "x \<in> {..< length h}"
  proof (induction rule: rtrancl_induct)
    case base
    then show ?case using a assms(2) by (auto simp: wf_symbol_def)
  next
    case (step y z)
    then show ?case using node_sources_wf [OF assms(1)] by (auto simp: edges_def)
  qed
qed

lemma reachable_head: "e \<in> set (heads s) \<Longrightarrow> source e \<in> reachable h s"
  by (auto simp: reachable_def)

lemma reachable_step:
  "a \<in> reachable h s \<Longrightarrow> a < length h \<Longrightarrow> b \<in> set (node_sources h a) \<Longrightarrow> b \<in> reachable h s"
  unfolding reachable_def
  by (auto simp: edges_def intro: rtrancl_into_rtrancl)

lemma wf_heap_nth:
  "wf_heap h = (\<forall>b < length h. set (node_sources h b) \<subseteq> {..< length h})"
  by (fastforce simp: wf_heap_def node_sources_def in_set_conv_nth)

lemma single_head:
  "NumReturns s = 1 \<Longrightarrow> heads s = [heads s ! 0]"
  by (cases "heads s") (auto simp: NumReturns_def)

lemma single_head_sources:
  "NumReturns s = 1 \<Longrightarrow> source ` set (heads s) = {source (heads s ! 0)}"
  by (cases "heads s") (auto simp: NumReturns_def)

lemma DFSVisit_single_head:
  assumes "NumReturns s = 1" "DFSVisit h s = Some nodes"
  shows "\<exists>post. nodes = source (heads s ! 0) # post"
proof -
  have "map source (heads s) = [source (heads s ! 0)]"
    using single_head [OF assms(1)] by (metis list.simps(8,9))
  then have "DFSVisit h s = dfs_loop h [source (heads s ! 0)] {source (heads s ! 0)}"
    by (simp add: DFSVisit_eq single_head_sources [OF assms(1)])
  with assms(2) show ?thesis by (auto simp: dfs_loop_Cons split: if_splits)
qed

text \<open>
  The arguments of the graph the atomic keyword \<open>Compose\<close> builds, when no value of
  \<open>kwargs\<close> has a free variable: the placeholders, in the order of the declared names.
\<close>

lemma ListArguments_bound_heap:
  assumes wf: "wf_heap h" "wf_symbol h s"
    and one: "NumReturns s = 1" and atomic: "Symbol_is_atomic h s"
    and p: "op (h ! source (heads s ! 0)) = Some p"
    and kw: "\<forall>kv \<in> set kwargs. NumReturns (snd kv) = 1 \<and> wf_symbol h (snd kv) \<and>
               (\<forall>a \<in> reachable h (snd kv). \<not> is_variable (h ! a))"
  shows "ListArguments (bound_heap h (source (heads s ! 0)) kwargs nm (op_ListArguments p)) s
         = Inr (map (placeholder_name nm) (filter (absent kwargs) (op_ListArguments p)))"
proof -
  let ?hd = "source (heads s ! 0)"
  let ?reqs = "op_ListArguments p"
  let ?H = "bound_heap h ?hd kwargs nm ?reqs"
  let ?n = "length h"
  let ?m = "length (filter (absent kwargs) ?reqs)"
  let ?srcs = "map source (bound_slots kwargs ?reqs ?n)"
  have hd: "?hd < ?n" by (rule head_valid [OF one wf(2)])
  have Hhd: "?H ! ?hd = (h ! ?hd)\<lparr>name := nm, inputs := bound_slots kwargs ?reqs ?n\<rparr>"
    by (rule bound_heap_head [OF hd])
  have src_hd: "node_sources ?H ?hd = ?srcs" by (simp add: node_sources_def Hhd)
  have heads1: "source ` set (heads s) = {?hd}"
    by (rule single_head_sources [OF one])
  have kwhead: "\<forall>kv \<in> set kwargs. source (heads (snd kv) ! 0) < ?n"
  proof
    fix kv assume kv: "kv \<in> set kwargs"
    with kw have "NumReturns (snd kv) = 1" "wf_symbol h (snd kv)" by auto
    then show "source (heads (snd kv) ! 0) < ?n" by (rule head_valid)
  qed
  have fresh: "filter (\<lambda>a. ?n \<le> a) ?srcs = [?n ..< ?n + ?m]"
    by (rule bound_slots_sources [OF kwhead order_refl])
  show ?thesis
  proof (cases "?reqs = []")
    case True
    then have "Symbol_is_atomic ?H s"
      using atomic p Hhd by (simp add: Symbol_is_atomic_def is_atomic_def)
    then show ?thesis using True p Hhd by (simp add: ListArguments_def)
  next
    case False
    then have na: "\<not> Symbol_is_atomic ?H s"
      by (simp add: Symbol_is_atomic_def is_atomic_def Hhd)
    have wfH: "wf_heap ?H"
      unfolding wf_heap_nth
    proof (intro allI impI)
      fix b assume b: "b < length ?H"
      consider "b = ?hd" | "b < ?n" "b \<noteq> ?hd" | "?n \<le> b" by linarith
      then show "set (node_sources ?H b) \<subseteq> {..< length ?H}"
      proof cases
        case 1
        have "set ?srcs \<subseteq> {..< ?n + ?m}"
        proof
          fix z assume "z \<in> set ?srcs"
          then have "z \<in> (\<lambda>kv. source (heads (snd kv) ! 0)) ` set kwargs \<or> z \<in> {?n ..< ?n + ?m}"
            using bound_slots_set [of kwargs ?reqs ?n] by blast
          then show "z \<in> {..< ?n + ?m}" using kwhead by fastforce
        qed
        then show ?thesis using 1 by (simp add: src_hd)
      next
        case 2
        then have "node_sources ?H b = node_sources h b"
          by (simp add: node_sources_def bound_heap_old)
        then show ?thesis using node_sources_wf [OF wf(1) 2(1)] by auto
      next
        case 3
        then obtain k where k: "b = ?n + k" "k < ?m" using b by (auto simp: le_iff_add)
        then show ?thesis
          using bound_heap_new [OF hd k(2), of nm] by (simp add: node_sources_def new_Node_def)
      qed
    qed
    have wfs: "wf_symbol ?H s" using wf(2) by (auto simp: wf_symbol_def)
    from DFSVisit_total [OF wfH wfs] obtain nodes where nodes: "DFSVisit ?H s = Some nodes"
      by blast
    from DFSVisit_single_head [OF one nodes] obtain post where post: "nodes = ?hd # post"
      by blast
    let ?new = "unmarked_inputs ?H {?hd} ?hd"
    have sib: "filter (\<lambda>x. x \<in> set ?new) post = ?new"
      using DFSVisit_siblings [of ?H s "[]" ?hd post] nodes post by (simp add: heads1)
    have new: "?new = remdups (filter (\<lambda>x. x \<noteq> ?hd) ?srcs)"
      by (simp add: unmarked_inputs_def src_hd)
    let ?R = "\<Union>kv \<in> set kwargs. reachable h (snd kv)"
    have Rn: "?R \<subseteq> {..< ?n}" using kw reachable_bound [OF wf(1)] by blast
    have Rv: "\<And>a. a \<in> ?R \<Longrightarrow> \<not> is_variable (h ! a)" using kw by blast
    have inR: "set nodes \<subseteq> insert ?hd ({?n ..< ?n + ?m} \<union> ?R)"
    proof
      fix x assume "x \<in> set nodes"
      then have "x \<in> reachable ?H s" using DFSVisit_reachable [OF nodes] by simp
      then have "(?hd, x) \<in> (edges ?H)\<^sup>*" by (simp add: reachable_def heads1)
      then show "x \<in> insert ?hd ({?n ..< ?n + ?m} \<union> ?R)"
      proof (induction rule: rtrancl_induct)
        case base
        then show ?case by simp
      next
        case (step y z)
        from step(2) have y: "y < length ?H" and z: "z \<in> set (node_sources ?H y)"
          by (auto simp: edges_def)
        consider "y = ?hd" | "y \<in> ?R" "y \<noteq> ?hd" | "y \<in> {?n ..< ?n + ?m}"
          using step(3) by blast
        then show ?case
        proof cases
          case 1
          with z have "z \<in> set ?srcs" by (simp add: src_hd)
          then have "z \<in> (\<lambda>kv. source (heads (snd kv) ! 0)) ` set kwargs \<or> z \<in> {?n ..< ?n + ?m}"
            using bound_slots_set [of kwargs ?reqs ?n] by blast
          then show ?thesis
          proof
            assume "z \<in> (\<lambda>kv. source (heads (snd kv) ! 0)) ` set kwargs"
            then obtain kv where kv: "kv \<in> set kwargs" "z = source (heads (snd kv) ! 0)" by blast
            with kw have "NumReturns (snd kv) = 1" by blast
            then have "heads (snd kv) ! 0 \<in> set (heads (snd kv))"
              by (simp add: NumReturns_def)
            then have "z \<in> reachable h (snd kv)" unfolding kv(2) by (rule reachable_head)
            with kv(1) show ?thesis by blast
          next
            assume "z \<in> {?n ..< ?n + ?m}"
            then show ?thesis by blast
          qed
        next
          case 2
          then obtain kv where kv: "kv \<in> set kwargs" "y \<in> reachable h (snd kv)" by blast
          have yn: "y < ?n" using Rn 2(1) by blast
          then have "node_sources ?H y = node_sources h y"
            using 2(2) by (simp add: node_sources_def bound_heap_old)
          with z have "z \<in> reachable h (snd kv)"
            using reachable_step [OF kv(2) yn] by simp
          with kv(1) show ?thesis by blast
        next
          case 3
          then obtain k where k: "y = ?n + k" "k < ?m" by (auto simp: le_iff_add)
          then have "node_sources ?H y = []"
            using bound_heap_new [OF hd k(2), of nm] by (simp add: node_sources_def new_Node_def)
          with z show ?thesis by simp
        qed
      qed
    qed
    have var: "\<And>a. a \<in> set nodes \<Longrightarrow> is_variable (?H ! a) = (?n \<le> a)"
    proof -
      fix a assume "a \<in> set nodes"
      then consider "a = ?hd" | "a \<in> ?R" "a \<noteq> ?hd" | "a \<in> {?n ..< ?n + ?m}"
        using inR by blast
      then show "is_variable (?H ! a) = (?n \<le> a)"
      proof cases
        case 1
        then show ?thesis using hd p by (simp add: Hhd is_variable_def)
      next
        case 2
        then have "a < ?n" using Rn by blast
        then show ?thesis using 2 Rv by (simp add: bound_heap_old)
      next
        case 3
        then obtain k where k: "a = ?n + k" "k < ?m" by (auto simp: le_iff_add)
        then show ?thesis
          using bound_heap_new [OF hd k(2), of nm] by (simp add: is_variable_def new_Node_def)
      qed
    qed
    have "filter (\<lambda>a. is_variable (?H ! a)) nodes = filter (\<lambda>a. ?n \<le> a) nodes"
      using var by (intro filter_cong) auto
    also have "\<dots> = filter (\<lambda>a. ?n \<le> a) post" using hd by (simp add: post)
    also have "\<dots> = filter (\<lambda>a. ?n \<le> a) (filter (\<lambda>x. x \<in> set ?new) post)"
    proof -
      have "\<And>a. a \<in> set post \<Longrightarrow> ?n \<le> a \<Longrightarrow> a \<in> set ?new"
      proof -
        fix a assume a: "a \<in> set post" "?n \<le> a"
        from a(1) have "a \<in> insert ?hd ({?n ..< ?n + ?m} \<union> ?R)"
          using inR by (auto simp: post)
        moreover have "a \<noteq> ?hd" using a(2) hd by simp
        moreover have "a \<notin> ?R" using a(2) Rn by fastforce
        ultimately have "a \<in> {?n ..< ?n + ?m}" by blast
        then have "a \<in> set (filter (\<lambda>a. ?n \<le> a) ?srcs)" by (simp only: fresh) simp
        then show "a \<in> set ?new" using a(2) hd by (auto simp: new)
      qed
      then show ?thesis by (auto intro: filter_cong simp: filter_filter_subset conj_commute)
    qed
    also have "\<dots> = filter (\<lambda>a. ?n \<le> a) ?new" by (simp only: sib)
    also have "\<dots> = remdups (filter (\<lambda>a. ?n \<le> a) (filter (\<lambda>x. x \<noteq> ?hd) ?srcs))"
      by (simp only: new remdups_filter)
    also have "filter (\<lambda>a. ?n \<le> a) (filter (\<lambda>x. x \<noteq> ?hd) ?srcs) = filter (\<lambda>a. ?n \<le> a) ?srcs"
      using hd by (intro filter_filter_subset) simp
    also have "remdups (filter (\<lambda>a. ?n \<le> a) ?srcs) = [?n ..< ?n + ?m]"
      by (simp only: fresh) simp
    finally have vars: "filter (\<lambda>a. is_variable (?H ! a)) nodes = [?n ..< ?n + ?m]" .
    have "map (\<lambda>a. name (?H ! a)) [?n ..< ?n + ?m]
          = map (placeholder_name nm) (filter (absent kwargs) ?reqs)"
    proof (rule nth_equalityI)
      show "length (map (\<lambda>a. name (?H ! a)) [?n ..< ?n + ?m])
            = length (map (placeholder_name nm) (filter (absent kwargs) ?reqs))" by simp
    next
      fix k assume "k < length (map (\<lambda>a. name (?H ! a)) [?n ..< ?n + ?m])"
      then have k: "k < ?m" by simp
      then show "map (\<lambda>a. name (?H ! a)) [?n ..< ?n + ?m] ! k
            = map (placeholder_name nm) (filter (absent kwargs) ?reqs) ! k"
        using bound_heap_new [OF hd k, of nm] by (simp add: new_Node_def)
    qed
    then show ?thesis using na nodes vars by (simp add: ListArguments_def)
  qed
qed

text \<open>
  Claim C8. The keyword \<open>Compose\<close> on an atomic Symbol binds each required name that
  is no key of \<open>kwargs\<close> to a new variable node, named by the required name when the
  group name is empty and by the group name, an underscore and the required name
  otherwise; in particular the operator with the arguments \<open>data\<close> and \<open>weight\<close>,
  composed with \<open>{data: x}\<close> under the name \<open>fc\<close>, has \<open>ListArguments()\<close> exactly
  \<open>[fc_weight]\<close>.

  The particular case fails for an \<open>x\<close> with a free variable, which stays an argument of
  the result: for the variable \<open>x\<close> the list is \<open>[x, fc_weight]\<close>.
\<close>

theorem Compose_kw_partial_binding_counterexample:
  "Symbol_is_atomic fc_heap fc_symbol \<and>
   ListArguments fc_heap fc_symbol = Inr [''data'', ''weight''] \<and>
   (case Compose_kw fc_heap fc_symbol [(''data'', fc_variable)] ''fc'' of
      (r, h') \<Rightarrow> r = Inr () \<and> ListArguments h' fc_symbol = Inr [''x'', ''fc_weight''])"
  by code_simp


text \<open>
  Claim C8, amended: when every key of \<open>kwargs\<close> is a declared argument (the keys and the
  declared names being distinct), the call succeeds; the slot of a key holds the head of
  its value, the slot of any other required name a new variable node, one of its own, with
  the name the claim gives. When moreover no value of \<open>kwargs\<close> has a free variable,
  \<open>ListArguments()\<close> of the result is the list of the placeholders' names in the declared
  order, \<open>[fc_weight]\<close> in the particular case.
\<close>

theorem Compose_kw_atomic_placeholders:
  assumes "wf_heap h" and "wf_symbol h s"
    and "NumReturns s = 1" and "Symbol_is_atomic h s"
    and "op (h ! source (heads s ! 0)) = Some p"
    and "\<forall>kv \<in> set kwargs. NumReturns (snd kv) = 1 \<and> wf_symbol h (snd kv)"
    and "distinct (map fst kwargs)" and "distinct (op_ListArguments p)"
    and "set (map fst kwargs) \<subseteq> set (op_ListArguments p)"
  shows "\<exists>h'. Compose_kw h s kwargs nm = (Inr (), h') \<and>
           length (inputs (h' ! source (heads s ! 0))) = length (op_ListArguments p) \<and>
           (\<forall>i < length (op_ListArguments p).
              (case map_of kwargs (op_ListArguments p ! i) of
                 Some arg \<Rightarrow> inputs (h' ! source (heads s ! 0)) ! i = heads arg ! 0
               | None \<Rightarrow>
                   inputs (h' ! source (heads s ! 0)) ! i
                     = \<lparr>source = placeholder_address h kwargs (op_ListArguments p) i, index = 0\<rparr> \<and>
                   length h \<le> placeholder_address h kwargs (op_ListArguments p) i \<and>
                   placeholder_address h kwargs (op_ListArguments p) i < length h' \<and>
                   h' ! placeholder_address h kwargs (op_ListArguments p) i
                     = new_Node None (placeholder_name nm (op_ListArguments p ! i)) \<and>
                   (\<forall>j < i. placeholder_address h kwargs (op_ListArguments p) j
                             < placeholder_address h kwargs (op_ListArguments p) i \<or>
                            \<not> absent kwargs (op_ListArguments p ! j)))) \<and>
           ((\<forall>kv \<in> set kwargs. \<forall>a \<in> reachable h (snd kv). \<not> is_variable (h ! a)) \<longrightarrow>
              ListArguments h' s
                = Inr (map (placeholder_name nm) (filter (absent kwargs) (op_ListArguments p))))"
proof -
  let ?hd = "source (heads s ! 0)"
  let ?reqs = "op_ListArguments p"
  let ?H = "bound_heap h ?hd kwargs nm ?reqs"
  have hd: "?hd < length h" by (rule head_valid [OF assms(3,2)])
  have k1: "\<forall>kv \<in> set kwargs. NumReturns (snd kv) = 1" using assms(6) by blast
  have c: "Compose_kw h s kwargs nm = (Inr (), ?H)"
    by (rule Compose_kw_atomic_success [OF assms(2,3,4,5) k1 assms(7,8,9)])
  have Hhd: "inputs (?H ! ?hd) = bound_slots kwargs ?reqs (length h)"
    by (simp add: bound_heap_head [OF hd])
  have len: "length (inputs (?H ! ?hd)) = length ?reqs" by (simp add: Hhd)
  have slots: "\<forall>i < length ?reqs.
      (case map_of kwargs (?reqs ! i) of
         Some arg \<Rightarrow> inputs (?H ! ?hd) ! i = heads arg ! 0
       | None \<Rightarrow>
           inputs (?H ! ?hd) ! i = \<lparr>source = placeholder_address h kwargs ?reqs i, index = 0\<rparr> \<and>
           length h \<le> placeholder_address h kwargs ?reqs i \<and>
           placeholder_address h kwargs ?reqs i < length ?H \<and>
           ?H ! placeholder_address h kwargs ?reqs i
             = new_Node None (placeholder_name nm (?reqs ! i)) \<and>
           (\<forall>j < i. placeholder_address h kwargs ?reqs j < placeholder_address h kwargs ?reqs i \<or>
                    \<not> absent kwargs (?reqs ! j)))"
  proof (intro allI impI)
    fix i assume i: "i < length ?reqs"
    show "case map_of kwargs (?reqs ! i) of
         Some arg \<Rightarrow> inputs (?H ! ?hd) ! i = heads arg ! 0
       | None \<Rightarrow>
           inputs (?H ! ?hd) ! i = \<lparr>source = placeholder_address h kwargs ?reqs i, index = 0\<rparr> \<and>
           length h \<le> placeholder_address h kwargs ?reqs i \<and>
           placeholder_address h kwargs ?reqs i < length ?H \<and>
           ?H ! placeholder_address h kwargs ?reqs i
             = new_Node None (placeholder_name nm (?reqs ! i)) \<and>
           (\<forall>j < i. placeholder_address h kwargs ?reqs j < placeholder_address h kwargs ?reqs i \<or>
                    \<not> absent kwargs (?reqs ! j))"
    proof (cases "map_of kwargs (?reqs ! i)")
      case (Some arg)
      then show ?thesis using bound_slots_nth [OF i, of kwargs "length h"] by (simp add: Hhd)
    next
      case None
      then have a: "absent kwargs (?reqs ! i)" by (simp add: absent_def)
      have e: "inputs (?H ! ?hd) ! i = \<lparr>source = placeholder_address h kwargs ?reqs i, index = 0\<rparr>"
        using bound_slots_nth [OF i, of kwargs "length h"] None
        by (simp add: Hhd placeholder_address_def)
      have lt: "length (filter (absent kwargs) (take i ?reqs)) < length (filter (absent kwargs) ?reqs)"
        by (rule filter_take_less_length [where P = "absent kwargs", OF i a])
      have n: "?H ! placeholder_address h kwargs ?reqs i
               = new_Node None (placeholder_name nm (?reqs ! i))"
        using bound_heap_new [OF hd lt, of nm] filter_take_nth [where P = "absent kwargs", OF i a]
        by (simp add: placeholder_address_def)
      have o: "\<forall>j < i. placeholder_address h kwargs ?reqs j < placeholder_address h kwargs ?reqs i \<or>
                    \<not> absent kwargs (?reqs ! j)"
      proof (intro allI impI)
        fix j assume j: "j < i"
        show "placeholder_address h kwargs ?reqs j < placeholder_address h kwargs ?reqs i \<or>
              \<not> absent kwargs (?reqs ! j)"
        proof (cases "absent kwargs (?reqs ! j)")
          case True
          have "j < length (take i ?reqs)" using j i by simp
          moreover have "absent kwargs (take i ?reqs ! j)" using True j by simp
          ultimately have "length (filter (absent kwargs) (take j (take i ?reqs)))
                < length (filter (absent kwargs) (take i ?reqs))"
            by (rule filter_take_less_length [where P = "absent kwargs"])
          moreover have "min j i = j" using j by simp
          ultimately show ?thesis by (simp add: placeholder_address_def)
        next
          case False
          then show ?thesis by simp
        qed
      qed
      show ?thesis using None e lt n o by (simp add: placeholder_address_def)
    qed
  qed
  have la: "(\<forall>kv \<in> set kwargs. \<forall>a \<in> reachable h (snd kv). \<not> is_variable (h ! a)) \<longrightarrow>
            ListArguments ?H s = Inr (map (placeholder_name nm) (filter (absent kwargs) ?reqs))"
  proof
    assume "\<forall>kv \<in> set kwargs. \<forall>a \<in> reachable h (snd kv). \<not> is_variable (h ! a)"
    with assms(6) have "\<forall>kv \<in> set kwargs. NumReturns (snd kv) = 1 \<and> wf_symbol h (snd kv) \<and>
               (\<forall>a \<in> reachable h (snd kv). \<not> is_variable (h ! a))" by blast
    then show "ListArguments ?H s = Inr (map (placeholder_name nm) (filter (absent kwargs) ?reqs))"
      by (rule ListArguments_bound_heap [OF assms(1,2,3,4,5)])
  qed
  from c len slots la show ?thesis by blast
qed


theorem Compose_kw_atomic_placeholders_witness:
  "wf_heap fc_heap \<and> wf_symbol fc_heap fc_symbol \<and> NumReturns fc_symbol = 1 \<and>
   Symbol_is_atomic fc_heap fc_symbol \<and>
   op (fc_heap ! source (heads fc_symbol ! 0)) = Some FullyConnected \<and>
   op_ListArguments FullyConnected = [''data'', ''weight''] \<and>
   NumReturns fc_constant = 1 \<and> wf_symbol fc_heap fc_constant \<and>
   reachable fc_heap fc_constant = {2} \<and> \<not> is_variable (fc_heap ! 2) \<and>
   (\<exists>h'. Compose_kw fc_heap fc_symbol [(''data'', fc_constant)] ''fc'' = (Inr (), h') \<and>
         inputs (h' ! source (heads fc_symbol ! 0))
           = [\<lparr>source = 2, index = 0\<rparr>, \<lparr>source = 3, index = 0\<rparr>] \<and>
         h' ! 3 = new_Node None ''fc_weight'' \<and>
         ListArguments h' fc_symbol = Inr [''fc_weight''])"
proof -
  have a: "wf_heap fc_heap" "wf_symbol fc_heap fc_symbol" "NumReturns fc_symbol = 1"
    "Symbol_is_atomic fc_heap fc_symbol"
    "op (fc_heap ! source (heads fc_symbol ! 0)) = Some FullyConnected"
    by code_simp+
  have k: "\<forall>kv \<in> set [(''data'', fc_constant)]. NumReturns (snd kv) = 1 \<and> wf_symbol fc_heap (snd kv)"
    by code_simp
  have d: "distinct (map fst [(''data'', fc_constant)])" "distinct (op_ListArguments FullyConnected)"
    "set (map fst [(''data'', fc_constant)]) \<subseteq> set (op_ListArguments FullyConnected)"
    by code_simp+
  have b: "op_ListArguments FullyConnected = [''data'', ''weight'']"
    "NumReturns fc_constant = 1" "wf_symbol fc_heap fc_constant" "\<not> is_variable (fc_heap ! 2)"
    by code_simp+
  have "DFSVisit fc_heap fc_constant = Some [2]" by code_simp
  then have "set [2] = reachable fc_heap fc_constant" by (rule DFSVisit_reachable)
  then have r: "reachable fc_heap fc_constant = {2}" by simp
  have nv: "\<forall>kv \<in> set [(''data'', fc_constant)]. \<forall>a \<in> reachable fc_heap (snd kv).
              \<not> is_variable (fc_heap ! a)"
    using b(4) by (simp add: r)
  have e: "Compose_kw fc_heap fc_symbol [(''data'', fc_constant)] ''fc''
           = (Inr (), snd (Compose_kw fc_heap fc_symbol [(''data'', fc_constant)] ''fc''))"
    by code_simp
  have i: "inputs (snd (Compose_kw fc_heap fc_symbol [(''data'', fc_constant)] ''fc'')
                    ! source (heads fc_symbol ! 0))
           = [\<lparr>source = 2, index = 0\<rparr>, \<lparr>source = 3, index = 0\<rparr>]"
    "snd (Compose_kw fc_heap fc_symbol [(''data'', fc_constant)] ''fc'') ! 3
       = new_Node None ''fc_weight''"
    by code_simp+
  have f: "map (placeholder_name ''fc'')
             (filter (absent [(''data'', fc_constant)]) (op_ListArguments FullyConnected))
           = [''fc_weight'']" by code_simp
  from Compose_kw_atomic_placeholders [OF a k d, of "''fc''"] nv
  obtain h' where h': "Compose_kw fc_heap fc_symbol [(''data'', fc_constant)] ''fc'' = (Inr (), h')"
    "ListArguments h' fc_symbol = Inr (map (placeholder_name ''fc'')
             (filter (absent [(''data'', fc_constant)]) (op_ListArguments FullyConnected)))"
    by blast
  from h'(1) e have eq: "h' = snd (Compose_kw fc_heap fc_symbol [(''data'', fc_constant)] ''fc'')"
    by simp
  have "ListArguments h' fc_symbol = Inr [''fc_weight'']" using h'(2) by (simp only: f)
  with h'(1) i have "\<exists>h'. Compose_kw fc_heap fc_symbol [(''data'', fc_constant)] ''fc'' = (Inr (), h') \<and>
         inputs (h' ! source (heads fc_symbol ! 0))
           = [\<lparr>source = 2, index = 0\<rparr>, \<lparr>source = 3, index = 0\<rparr>] \<and>
         h' ! 3 = new_Node None ''fc_weight'' \<and>
         ListArguments h' fc_symbol = Inr [''fc_weight'']"
    unfolding eq [symmetric] by (intro exI [of _ h'] conjI)
  with a b r show ?thesis by simp
qed

subsection \<open>The unmatched keyword\<close>

lemma dfs_loop_valid:
  "dfs_loop h st V = Some r \<Longrightarrow> set r \<subseteq> {..< length h}"
proof (induction h st V arbitrary: r rule: dfs_loop_induct)
  case (Nil h V)
  then show ?case by simp
next
  case (Cons h b st V)
  then show ?case by (auto simp: dfs_loop_Cons)
next
  case (Dangling h b st V)
  then show ?case by (simp add: dfs_loop_Cons)
qed

lemma DFSVisit_valid: "DFSVisit h s = Some nodes \<Longrightarrow> set nodes \<subseteq> {..< length h}"
  unfolding DFSVisit_eq by (rule dfs_loop_valid)

lemma DFSVisit_closed:
  assumes "DFSVisit h s = Some nodes" "n \<in> set nodes"
  shows "set (node_sources h n) \<subseteq> set nodes"
proof
  fix b assume b: "b \<in> set (node_sources h n)"
  have n: "n < length h" using DFSVisit_valid [OF assms(1)] assms(2) by auto
  have "n \<in> reachable h s" using DFSVisit_reachable [OF assms(1)] assms(2) by simp
  then have "b \<in> reachable h s" using n b by (rule reachable_step)
  then show "b \<in> set nodes" using DFSVisit_reachable [OF assms(1)] by simp
qed

lemma visit_edge_kw_counted:
  assumes "kw_counted (matched_variables h kwargs nodes) st"
    and "source (inputs (h ! n) ! i) \<in> set nodes"
  shows "kw_counted (matched_variables h kwargs nodes) (visit_edge_kw h kwargs n i st)"
proof -
  obtain nmatched visited plan where st: "st = (nmatched, visited, plan)" by (cases st)
  let ?src = "source (inputs (h ! n) ! i)"
  show ?thesis
  proof (cases "is_variable (h ! ?src) \<and> map_of kwargs (name (h ! ?src)) \<noteq> None")
    case False
    then show ?thesis using assms(1)
      by (auto simp: visit_edge_kw_def st Let_def split: option.splits)
  next
    case True
    then have "name (h ! ?src) \<in> fst ` set kwargs" by (simp add: map_of_eq_None_iff)
    then have "?src \<in> matched_variables h kwargs nodes"
      using True assms(2) by (simp add: matched_variables_def)
    then show ?thesis using assms(1) True
      by (auto simp: visit_edge_kw_def st Let_def kw_counted_def split: option.splits)
  qed
qed

lemma visit_node_kw_counted:
  assumes "kw_counted (matched_variables h kwargs nodes) st"
    and "set (node_sources h n) \<subseteq> set nodes"
  shows "kw_counted (matched_variables h kwargs nodes) (visit_node_kw h kwargs n st)"
proof -
  have "\<And>is st. set is \<subseteq> {..< length (inputs (h ! n))} \<Longrightarrow>
          kw_counted (matched_variables h kwargs nodes) st \<Longrightarrow>
          kw_counted (matched_variables h kwargs nodes) (fold (visit_edge_kw h kwargs n) is st)"
  proof -
    fix "is" :: "nat list" and st
    show "set is \<subseteq> {..< length (inputs (h ! n))} \<Longrightarrow>
          kw_counted (matched_variables h kwargs nodes) st \<Longrightarrow>
          kw_counted (matched_variables h kwargs nodes) (fold (visit_edge_kw h kwargs n) is st)"
    proof (induction "is" arbitrary: st)
      case Nil
      then show ?case by simp
    next
      case (Cons i "is")
      have "i < length (inputs (h ! n))" using Cons.prems(1) by simp
      then have "source (inputs (h ! n) ! i) \<in> set (node_sources h n)"
        by (simp add: node_sources_def)
      then have "source (inputs (h ! n) ! i) \<in> set nodes" using assms(2) by blast
      from visit_edge_kw_counted [OF Cons.prems(2) this] Cons.IH Cons.prems(1)
      show ?case by simp
    qed
  qed
  moreover have "set [0 ..< length (inputs (h ! n))] \<subseteq> {..< length (inputs (h ! n))}"
    by auto
  ultimately show ?thesis unfolding visit_node_kw_def using assms(1) by blast
qed

lemma fold_visit_node_kw_counted:
  assumes "DFSVisit h s = Some nodes"
  shows "kw_counted (matched_variables h kwargs nodes) (fold (visit_node_kw h kwargs) nodes (0, {}, []))"
proof -
  have "\<And>ns st. set ns \<subseteq> set nodes \<Longrightarrow>
          kw_counted (matched_variables h kwargs nodes) st \<Longrightarrow>
          kw_counted (matched_variables h kwargs nodes) (fold (visit_node_kw h kwargs) ns st)"
  proof -
    fix ns st
    show "set ns \<subseteq> set nodes \<Longrightarrow>
          kw_counted (matched_variables h kwargs nodes) st \<Longrightarrow>
          kw_counted (matched_variables h kwargs nodes) (fold (visit_node_kw h kwargs) ns st)"
    proof (induction ns arbitrary: st)
      case Nil
      then show ?case by simp
    next
      case (Cons n ns)
      have "set (node_sources h n) \<subseteq> set nodes"
        using DFSVisit_closed [OF assms] Cons.prems(1) by simp
      from visit_node_kw_counted [OF Cons.prems(2) this] Cons.IH Cons.prems(1)
      show ?case by simp
    qed
  qed
  from this [of nodes "(0, {}, [])"] show ?thesis by (simp add: kw_counted_def)
qed

lemma matched_variables_card:
  assumes "distinct nodes" "distinct (variable_names h nodes)" "distinct (map fst kwargs)"
    and "\<not> set (map fst kwargs) \<subseteq> set (variable_names h nodes)"
  shows "card (matched_variables h kwargs nodes) < length kwargs"
proof -
  let ?M = "matched_variables h kwargs nodes"
  let ?K = "set (map fst kwargs)"
  let ?C = "set (variable_names h nodes)"
  have inj: "inj_on (\<lambda>a. name (h ! a)) (set (filter (\<lambda>a. is_variable (h ! a)) nodes))"
    using assms(2) by (simp add: variable_names_def distinct_map)
  have sub: "?M \<subseteq> set (filter (\<lambda>a. is_variable (h ! a)) nodes)"
    by (auto simp: matched_variables_def)
  have "inj_on (\<lambda>a. name (h ! a)) ?M" using inj sub by (rule inj_on_subset)
  then have "card ?M = card ((\<lambda>a. name (h ! a)) ` ?M)" by (simp add: card_image)
  also have "(\<lambda>a. name (h ! a)) ` ?M \<subseteq> ?K \<inter> ?C"
    by (auto simp: matched_variables_def variable_names_def)
  then have "card ((\<lambda>a. name (h ! a)) ` ?M) \<le> card (?K \<inter> ?C)"
    by (intro card_mono) auto
  also have "?K \<inter> ?C \<subset> ?K" using assms(4) by auto
  then have "card (?K \<inter> ?C) < card ?K" by (intro psubset_card_mono) auto
  also have "card ?K = length kwargs" using distinct_card [OF assms(3)] by simp
  finally show ?thesis .
qed

lemma kw_nmatched_less:
  assumes "DFSVisit h s = Some nodes" "distinct (variable_names h nodes)"
    "distinct (map fst kwargs)" "\<not> set (map fst kwargs) \<subseteq> set (variable_names h nodes)"
    "fold (visit_node_kw h kwargs) nodes (0, {}, []) = (nmatched, visited, plan)"
  shows "nmatched < length kwargs"
proof -
  let ?M = "matched_variables h kwargs nodes"
  from fold_visit_node_kw_counted [OF assms(1), of kwargs] assms(5)
  have v: "nmatched = card visited" "visited \<subseteq> ?M" by (auto simp: kw_counted_def)
  have "finite ?M" by (simp add: matched_variables_def)
  then have "card visited \<le> card ?M" using v(2) by (intro card_mono)
  also have "card ?M < length kwargs"
    by (rule matched_variables_card [OF DFSVisit_distinct [OF assms(1)] assms(2,3,4)])
  finally show ?thesis using v(1) by simp
qed

lemma distinct_count_list_le: "distinct xs \<Longrightarrow> count_list xs x \<le> 1"
  by (induction xs) auto

lemma no_duplicate_found:
  assumes "distinct vs"
  shows "snd (fold count_arg vs ([], 1)) = 1"
proof -
  obtain out max_dup where f: "fold count_arg vs ([], 1) = (out, max_dup)"
    by (cases "fold count_arg vs ([], 1)")
  from counted_all [of vs] f
  have d: "distinct (map fst out)"
    and m: "\<And>nm. map_of out nm = (if nm \<in> set vs then Some (int (count_list vs nm)) else None)"
    and one: "1 \<le> max_dup"
    and ex: "1 < max_dup \<Longrightarrow> \<exists>kv \<in> set out. snd kv = max_dup"
    by (auto simp: counted_def)
  have "\<not> 1 < max_dup"
  proof
    assume "1 < max_dup"
    from ex [OF this] obtain kv where kv: "kv \<in> set out" "snd kv = max_dup" by blast
    from kv(1) have "(fst kv, snd kv) \<in> set out" by simp
    then have "map_of out (fst kv) = Some (snd kv)" using d by (rule map_of_is_SomeI [rotated])
    then have "snd kv = int (count_list vs (fst kv))" by (auto simp: m split: if_splits)
    with distinct_count_list_le [OF assms, of "fst kv"] kv(2) \<open>1 < max_dup\<close>
    show False by simp
  qed
  with one f show ?thesis by simp
qed

lemma matched_count_less:
  assumes "distinct reqs" "distinct (map fst kwargs)" "\<not> set (map fst kwargs) \<subseteq> set reqs"
  shows "length (filter (\<lambda>r. \<not> absent kwargs r) reqs) < length kwargs"
proof -
  let ?K = "set (map fst kwargs)"
  have "\<And>r. (\<not> absent kwargs r) = (r \<in> ?K)"
    by (simp add: absent_def map_of_eq_None_iff)
  then have e: "filter (\<lambda>r. \<not> absent kwargs r) reqs = filter (\<lambda>r. r \<in> ?K) reqs"
    by simp
  have "distinct (filter (\<lambda>r. r \<in> ?K) reqs)" using assms(1) by simp
  then have "card (set (filter (\<lambda>r. r \<in> ?K) reqs)) = length (filter (\<lambda>r. r \<in> ?K) reqs)"
    by (rule distinct_card)
  moreover have "set (filter (\<lambda>r. r \<in> ?K) reqs) \<subset> ?K" using assms(3) by auto
  then have "card (set (filter (\<lambda>r. r \<in> ?K) reqs)) < card ?K"
    by (intro psubset_card_mono) auto
  moreover have "card ?K = length (map fst kwargs)" using assms(2) by (rule distinct_card)
  ultimately show ?thesis by (simp add: e)
qed

lemma KeywordArgumentMismatch_first:
  assumes "\<not> set user_args \<subseteq> set args"
  shows "\<exists>key. find (\<lambda>k. k \<notin> set args) user_args = Some key \<and>
           KeywordArgumentMismatch src user_args args = Some (UnmatchedKeyword src key args)"
proof -
  from assms have "\<exists>k \<in> set user_args. k \<notin> set args" by blast
  then obtain key where "find (\<lambda>k. k \<notin> set args) user_args = Some key"
    by (cases "find (\<lambda>k. k \<notin> set args) user_args") (auto simp: find_None_iff)
  then show ?thesis by (simp add: KeywordArgumentMismatch_def)
qed


text \<open>
  Claim C4. When some keys of a keyword \<open>Compose\<close> match no candidate argument name,
  the \<open>UnmatchedKeyword\<close> failure reports the full list of the unmatched keys, not only
  the first one found, together with the full list of candidate names.

  \<open>KeywordArgumentMismatch\<close> raises inside its loop, at the first key that is no
  candidate, and its message holds that one key: with the unmatched keys \<open>p\<close> and \<open>q\<close>
  the failure names \<open>p\<close> only, on the atomic \<open>FullyConnected\<close> and on the composite
  \<open>fc(act(x), x)\<close>.
\<close>

theorem Compose_kw_unmatched_counterexample:
  "fst (Compose_kw fc_heap fc_symbol [(''p'', fc_variable), (''q'', fc_variable)] ''fc'')
     = Inl (UnmatchedKeyword ''Symbol.Compose'' ''p'' [''data'', ''weight'']) \<and>
   ListArguments fc_heap fc_symbol = Inr [''data'', ''weight''] \<and>
   filter (\<lambda>k. k \<notin> set [''data'', ''weight'']) [''p'', ''q''] = [''p'', ''q''] \<and>
   fst (Compose_kw (snd diamond_graph) (fst diamond_graph)
          [(''p'', fc_variable), (''x'', fc_variable), (''q'', fc_variable)] ''g'')
     = Inl (UnmatchedKeyword ''Symbol.Compose'' ''p'' [''x'']) \<and>
   ListArguments (snd diamond_graph) (fst diamond_graph) = Inr [''x''] \<and>
   filter (\<lambda>k. k \<notin> set [''x'']) [''p'', ''x'', ''q''] = [''p'', ''q'']"
  by code_simp


text \<open>
  Claim C4, amended: the failure reports the first unmatched key, in the order in which
  the keys are walked, together with the full list of candidate names, which is
  \<open>ListArguments()\<close> of the Symbol. This holds for a call that passes the earlier checks
  (one return, no bare variable, values of one return, candidate names distinct); no input
  edge of the graph is changed by the failed call.
\<close>

theorem Compose_kw_unmatched_first_key:
  assumes "wf_heap h" and "wf_symbol h s"
    and "NumReturns s = 1"
    and "\<not> is_variable (h ! source (heads s ! 0))"
    and "\<forall>kv \<in> set kwargs. NumReturns (snd kv) = 1"
    and "distinct (map fst kwargs)"
    and "ListArguments h s = Inr cands" and "distinct cands"
    and "\<not> set (map fst kwargs) \<subseteq> set cands"
  shows "\<exists>key h'. Compose_kw h s kwargs nm
                    = (Inl (UnmatchedKeyword ''Symbol.Compose'' key cands), h') \<and>
           find (\<lambda>k. k \<notin> set cands) (map fst kwargs) = Some key \<and>
           (\<forall>a < length h. inputs (h' ! a) = inputs (h ! a))"
proof -
  let ?hd = "source (heads s ! 0)"
  let ?h1 = "set_name h ?hd nm"
  have hd: "?hd < length h" by (rule head_valid [OF assms(3,2)])
  have t: "find (\<lambda>kv. NumReturns (snd kv) \<noteq> 1) kwargs = None"
    using assms(5) by (auto simp: find_None_iff)
  from KeywordArgumentMismatch_first [OF assms(9), of "''Symbol.Compose''"]
  obtain key where key: "find (\<lambda>k. k \<notin> set cands) (map fst kwargs) = Some key"
    "KeywordArgumentMismatch ''Symbol.Compose'' (map fst kwargs) cands
       = Some (UnmatchedKeyword ''Symbol.Compose'' key cands)" by blast
  show ?thesis
  proof (cases "Symbol_is_atomic h s")
    case True
    then obtain p where p: "op (h ! ?hd) = Some p" and i: "inputs (h ! ?hd) = []"
      using atomic_head [OF assms(3) True] by auto
    have c: "cands = op_ListArguments p" using assms(7) True p by (simp add: ListArguments_def)
    let ?reqs = "op_ListArguments p"
    let ?new = "map (\<lambda>r. new_Node None (placeholder_name nm r)) (filter (absent kwargs) ?reqs)"
    let ?h3 = "(?h1 @ ?new)[?hd := ((?h1 @ ?new) ! ?hd)\<lparr>inputs := bound_slots kwargs ?reqs (length ?h1)\<rparr>]"
    let ?h4 = "?h3[?hd := (?h3 ! ?hd)\<lparr>inputs := []\<rparr>]"
    have m: "length (filter (\<lambda>r. \<not> absent kwargs r) ?reqs) \<noteq> length kwargs"
      using matched_count_less [of ?reqs kwargs] assms(6,8,9) by (simp add: c)
    have at: "Symbol_is_atomic ?h1 s" using True by simp
    have op1: "op (?h1 ! ?hd) = Some p" using p by simp
    have h4hd: "?h4 ! ?hd = (h ! ?hd)\<lparr>name := nm, inputs := []\<rparr>"
      using hd by (simp add: nth_append set_name_def)
    have at4: "Symbol_is_atomic ?h4 s"
      using True p unfolding Symbol_is_atomic_def is_atomic_def by (simp only: h4hd) simp
    have la: "ListArguments ?h4 s = Inr cands"
      using at4 p unfolding ListArguments_def by (simp only: h4hd) (simp add: c)
    have r: "report_unmatched ?h4 s kwargs (length (filter (\<lambda>r. \<not> absent kwargs r) ?reqs))
             = (Inl (UnmatchedKeyword ''Symbol.Compose'' key cands), ?h4)"
      using m la key(2) by (simp add: report_unmatched_def)
    have "Compose_kw h s kwargs nm = (Inl (UnmatchedKeyword ''Symbol.Compose'' key cands), ?h4)"
      using assms(3,4) t at op1 m r
      by (simp add: Compose_kw_def Let_def set_name_def [symmetric] bind_required_eq)
    moreover have "\<forall>a < length h. inputs (?h4 ! a) = inputs (h ! a)"
    proof (intro allI impI)
      fix a assume a: "a < length h"
      show "inputs (?h4 ! a) = inputs (h ! a)"
      proof (cases "a = ?hd")
        case True
        then show ?thesis using i by (simp only: h4hd) simp
      next
        case False
        then show ?thesis using a by (simp add: nth_append)
      qed
    qed
    ultimately show ?thesis using key(1) by blast
  next
    case False
    from DFSVisit_total [OF assms(1,2)] obtain nodes where n: "DFSVisit h s = Some nodes" by blast
    have c: "cands = variable_names h nodes"
      using assms(7) False n by (simp add: ListArguments_def variable_names_def)
    have vn: "variable_names ?h1 nodes = variable_names h nodes"
      by (rule variable_names_set_name [OF assms(4)])
    have na: "\<not> Symbol_is_atomic ?h1 s" using False by simp
    have n1: "DFSVisit ?h1 s = Some nodes" using n by simp
    obtain dup_args where
      f: "fold count_arg (variable_names h nodes) ([], 1) = (dup_args, 1)"
      using no_duplicate_found [of "variable_names h nodes"] assms(8)
      by (cases "fold count_arg (variable_names h nodes) ([], 1)") (auto simp: c)
    have "fold (\<lambda>a st. if is_variable (?h1 ! a) then count_arg (name (?h1 ! a)) st else st)
            nodes ([], 1) = (dup_args, 1)"
      by (simp only: fold_count_variables vn f)
    then have fd: "FindDuplicateArgs ?h1 s = Inr (dup_args, 1)"
      unfolding FindDuplicateArgs_def by (simp only: n1 option.case)
    obtain nmatched visited plan where
      v: "fold (visit_node_kw ?h1 kwargs) nodes (0, {}, []) = (nmatched, visited, plan)"
      by (cases "fold (visit_node_kw ?h1 kwargs) nodes (0, {}, [])")
    have less: "nmatched < length kwargs"
      using kw_nmatched_less [OF n1 _ assms(6) _ v] assms(8,9) by (simp add: vn c)
    have la: "ListArguments ?h1 s = Inr cands"
      using na n1 vn by (simp add: ListArguments_def variable_names_def c)
    have r: "report_unmatched ?h1 s kwargs nmatched
             = (Inl (UnmatchedKeyword ''Symbol.Compose'' key cands), ?h1)"
      using less la key(2) by (simp add: report_unmatched_def)
    have "Compose_kw h s kwargs nm = (Inl (UnmatchedKeyword ''Symbol.Compose'' key cands), ?h1)"
      using assms(3,4) t na fd n1 v less r
      by (simp add: Compose_kw_def Let_def set_name_def [symmetric])
    moreover have "\<forall>a < length h. inputs (?h1 ! a) = inputs (h ! a)" by simp
    ultimately show ?thesis using key(1) by blast
  qed
qed

theorem Compose_kw_unmatched_first_key_witness:
  "wf_heap (snd diamond_graph) \<and> wf_symbol (snd diamond_graph) (fst diamond_graph) \<and>
   NumReturns (fst diamond_graph) = 1 \<and>
   \<not> is_variable (snd diamond_graph ! source (heads (fst diamond_graph) ! 0)) \<and>
   NumReturns fc_variable = 1 \<and>
   ListArguments (snd diamond_graph) (fst diamond_graph) = Inr [''x''] \<and>
   (\<exists>h'. Compose_kw (snd diamond_graph) (fst diamond_graph)
            [(''x'', fc_variable), (''q'', fc_variable), (''p'', fc_variable)] ''g''
           = (Inl (UnmatchedKeyword ''Symbol.Compose'' ''q'' [''x'']), h') \<and>
         map inputs (take (length (snd diamond_graph)) h') = map inputs (snd diamond_graph))"
proof -
  let ?kw = "[(''x'', fc_variable), (''q'', fc_variable), (''p'', fc_variable)]"
  have a: "wf_heap (snd diamond_graph)" "wf_symbol (snd diamond_graph) (fst diamond_graph)"
    "NumReturns (fst diamond_graph) = 1"
    "\<not> is_variable (snd diamond_graph ! source (heads (fst diamond_graph) ! 0))"
    by code_simp+
  have k: "\<forall>kv \<in> set ?kw. NumReturns (snd kv) = 1" "distinct (map fst ?kw)" by code_simp+
  have l: "ListArguments (snd diamond_graph) (fst diamond_graph) = Inr [''x'']" by code_simp
  have d: "distinct [''x'']" "\<not> set (map fst ?kw) \<subseteq> set [''x'']" by code_simp+
  have n: "NumReturns fc_variable = 1" by code_simp
  have f: "find (\<lambda>k. k \<notin> set [''x'']) (map fst ?kw) = Some ''q''" by code_simp
  from Compose_kw_unmatched_first_key [OF a k l d, of "''g''"] f
  obtain h' where h': "Compose_kw (snd diamond_graph) (fst diamond_graph) ?kw ''g''
           = (Inl (UnmatchedKeyword ''Symbol.Compose'' ''q'' [''x'']), h')"
    "\<forall>a < length (snd diamond_graph). inputs (h' ! a) = inputs (snd diamond_graph ! a)"
    by auto
  have e: "snd (Compose_kw (snd diamond_graph) (fst diamond_graph) ?kw ''g'')
           = set_name (snd diamond_graph) 2 ''g''" by code_simp
  have "map inputs (take (length (snd diamond_graph)) (set_name (snd diamond_graph) 2 ''g''))
        = map inputs (snd diamond_graph)" by code_simp
  with h'(1) e have "map inputs (take (length (snd diamond_graph)) h') = map inputs (snd diamond_graph)"
    by simp
  with h'(1) have "\<exists>h'. Compose_kw (snd diamond_graph) (fst diamond_graph) ?kw ''g''
           = (Inl (UnmatchedKeyword ''Symbol.Compose'' ''q'' [''x'']), h') \<and>
         map inputs (take (length (snd diamond_graph)) h') = map inputs (snd diamond_graph)"
    by blast
  with a n l show ?thesis by simp
qed

subsection \<open>The positional Compose on a composite Symbol\<close>

lemma first_occurrences_snoc:
  "first_occurrences (xs @ [x]) = (if x \<in> set xs then first_occurrences xs else first_occurrences xs @ [x])"
  by (simp add: first_occurrences_def)

lemma set_first_occurrences [simp]: "set (first_occurrences xs) = set xs"
  by (simp add: first_occurrences_def)

lemma distinct_first_occurrences [simp]: "distinct (first_occurrences xs)"
  by (simp add: first_occurrences_def)

lemma fold_visit_node_pos:
  "fold (visit_node_pos h args) nodes st
   = fold (\<lambda>e. visit_edge_pos h args (fst e) (snd e)) (all_edges h nodes) st"
proof (induction nodes arbitrary: st)
  case Nil
  then show ?case by (simp add: all_edges_def)
next
  case (Cons n nodes)
  have "visit_node_pos h args n st
        = fold (\<lambda>e. visit_edge_pos h args (fst e) (snd e))
            (map (Pair n) [0 ..< length (inputs (h ! n))]) st"
    by (simp add: visit_node_pos_def fold_map comp_def)
  then show ?case using Cons.IH by (simp add: all_edges_def)
qed

lemma fold_filter_id:
  "(\<And>x st. x \<in> set xs \<Longrightarrow> \<not> P x \<Longrightarrow> f x st = st) \<Longrightarrow> fold f (filter P xs) st = fold f xs st"
  by (induction xs arbitrary: st) auto

lemma visit_edge_pos_other:
  "\<not> is_variable (h ! edge_source h e) \<Longrightarrow> visit_edge_pos h args (fst e) (snd e) st = st"
  by (cases st) (simp add: visit_edge_pos_def edge_source_def)

lemma fold_variable_edges:
  "fold (visit_node_pos h args) nodes st
   = fold (\<lambda>e. visit_edge_pos h args (fst e) (snd e)) (variable_edges h nodes) st"
  unfolding fold_visit_node_pos variable_edges_def
  by (rule fold_filter_id [symmetric]) (rule visit_edge_pos_other)

lemma pos_matched_step:
  assumes "pos_matched h args es st" "is_variable (h ! edge_source h e)"
  shows "pos_matched h args (es @ [e]) (visit_edge_pos h args (fst e) (snd e) st)"
proof -
  obtain cnt rmap plan where st: "st = (cnt, rmap, plan)" by (cases st)
  let ?v = "edge_source h e"
  let ?vs = "first_occurrences (map (edge_source h) es)"
  let ?vs' = "first_occurrences (map (edge_source h) es @ [edge_source h e])"
  have vs': "?vs' = (if ?v \<in> set ?vs then ?vs else ?vs @ [?v])"
    by (simp add: first_occurrences_snoc)
  have len: "length ?vs \<le> length ?vs'" by (simp add: vs')
  show ?thesis
  proof (cases "cnt \<le> length args")
    case False
    then have "length args < length ?vs" using assms(1) by (simp add: pos_matched_def st Let_def)
    then have "length args < length ?vs'" using len by simp
    then show ?thesis using False assms(2)
      by (auto simp: pos_matched_def st Let_def visit_edge_pos_def edge_source_def
          split: option.splits)
  next
    case True
    with assms(1) have c: "cnt = length ?vs" and d: "dom rmap = set ?vs"
      and m: "\<And>k. k < length ?vs \<Longrightarrow> rmap (?vs ! k) = Some (first_head (args ! k))"
      and p: "plan = map (\<lambda>e. (e, the (rmap (edge_source h e)))) es"
      by (auto simp: pos_matched_def st Let_def)
    show ?thesis
    proof (cases "rmap ?v")
      case (Some t)
      then have "?v \<in> set ?vs" using d by auto
      then have "?vs' = ?vs" by (simp add: vs')
      moreover have "visit_edge_pos h args (fst e) (snd e) st = (cnt, rmap, plan @ [(e, t)])"
        using assms(2) Some by (simp add: visit_edge_pos_def st edge_source_def)
      ultimately show ?thesis
        using True c d m p Some by (simp add: pos_matched_def Let_def)
    next
      case None
      then have nin: "?v \<notin> set ?vs" using d by auto
      then have v: "?vs' = ?vs @ [?v]" by (simp add: vs')
      show ?thesis
      proof (cases "cnt < length args")
        case False
        then have "visit_edge_pos h args (fst e) (snd e) st = (Suc cnt, rmap, plan @ [(e, None)])"
          using assms(2) None by (simp add: visit_edge_pos_def st edge_source_def)
        moreover have "length args < length ?vs'" using False True c v by simp
        ultimately show ?thesis using False by (simp add: pos_matched_def Let_def)
      next
        case lt: True
        let ?t = "first_head (args ! cnt)"
        let ?rmap = "rmap(?v \<mapsto> ?t)"
        have r: "visit_edge_pos h args (fst e) (snd e) st = (Suc cnt, ?rmap, plan @ [(e, ?t)])"
          using assms(2) None lt by (simp add: visit_edge_pos_def st edge_source_def Let_def)
        have m': "\<forall>k < length ?vs'. ?rmap (?vs' ! k) = Some (first_head (args ! k))"
        proof (intro allI impI)
          fix k assume k: "k < length ?vs'"
          show "?rmap (?vs' ! k) = Some (first_head (args ! k))"
          proof (cases "k < length ?vs")
            case True
            then have "?vs ! k \<noteq> ?v" using nin by (metis nth_mem)
            then show ?thesis using True m [OF True] by (simp add: v nth_append)
          next
            case False
            then have "k = length ?vs" using k by (simp add: v)
            then show ?thesis by (simp add: v c)
          qed
        qed
        have "\<And>e'. e' \<in> set es \<Longrightarrow> edge_source h e' \<noteq> ?v"
          using nin by (metis image_eqI set_first_occurrences set_map)
        then have "map (\<lambda>e. (e, the (?rmap (edge_source h e)))) es
               = map (\<lambda>e. (e, the (rmap (edge_source h e)))) es" by simp
        then have p': "plan @ [(e, ?t)]
            = map (\<lambda>e. (e, the (?rmap (edge_source h e)))) es @ [(e, ?t)]"
          by (simp add: p)
        have d': "dom ?rmap = set ?vs'" using d by (simp add: v)
        have c': "Suc cnt = length ?vs'" by (simp add: v c)
        show ?thesis
          unfolding r pos_matched_def using lt c' d' m' p' by (simp add: Let_def)
      qed
    qed
  qed
qed

lemma pos_matched_fold:
  assumes "pos_matched h args es st" "\<forall>e \<in> set es'. is_variable (h ! edge_source h e)"
  shows "pos_matched h args (es @ es') (fold (\<lambda>e. visit_edge_pos h args (fst e) (snd e)) es' st)"
  using assms
proof (induction es' arbitrary: es st)
  case Nil
  then show ?case by simp
next
  case (Cons e es')
  have "pos_matched h args (es @ [e]) (visit_edge_pos h args (fst e) (snd e) st)"
    using Cons.prems by (intro pos_matched_step) auto
  from Cons.IH [OF this] Cons.prems(2) show ?case by simp
qed

lemma pos_matched_all:
  "pos_matched h args (variable_edges h nodes)
     (fold (visit_node_pos h args) nodes (0, Map.empty, []))"
proof -
  have "pos_matched h args [] (0, Map.empty, [])"
    by (simp add: pos_matched_def first_occurrences_def)
  moreover have "\<forall>e \<in> set (variable_edges h nodes). is_variable (h ! edge_source h e)"
    by (simp add: variable_edges_def)
  ultimately show ?thesis
    using pos_matched_fold [of h args "[]" "(0, Map.empty, [])" "variable_edges h nodes"]
    by (simp add: fold_variable_edges)
qed

lemma apply_plan_fold:
  "\<forall>kv \<in> set plan. snd kv \<noteq> None \<Longrightarrow> apply_plan plan h = Some (fold write_edge plan h)"
  by (induction plan arbitrary: h) (auto simp: write_edge_def)

lemma apply_plan_None:
  "kv \<in> set plan \<Longrightarrow> snd kv = None \<Longrightarrow> apply_plan plan h = None"
  by (induction plan arbitrary: h) (auto split: option.splits)

lemma write_edge_simps [simp]:
  "length (write_edge kv h) = length h"
  "op (write_edge kv h ! a) = op (h ! a)"
  "name (write_edge kv h ! a) = name (h ! a)"
  "backward_source_node (write_edge kv h ! a) = backward_source_node (h ! a)"
  "length (inputs (write_edge kv h ! a)) = length (inputs (h ! a))"
  by (cases "fst (fst kv) < length h"; cases "a = fst (fst kv)";
      simp add: write_edge_def list_update_beyond)+

lemma write_edge_inputs:
  "a < length h \<Longrightarrow> i < length (inputs (h ! a)) \<Longrightarrow>
   inputs (write_edge kv h ! a) ! i = (if fst kv = (a, i) then the (snd kv) else inputs (h ! a) ! i)"
  by (cases "a = fst (fst kv)"; cases "i = snd (fst kv)")
     (auto simp: write_edge_def prod_eq_iff)

lemma fold_write_edge_simps [simp]:
  "length (fold write_edge plan h) = length h"
  "op (fold write_edge plan h ! a) = op (h ! a)"
  "name (fold write_edge plan h ! a) = name (h ! a)"
  "backward_source_node (fold write_edge plan h ! a) = backward_source_node (h ! a)"
  "length (inputs (fold write_edge plan h ! a)) = length (inputs (h ! a))"
  by (induction plan arbitrary: h; simp)+

lemma fold_write_edge_inputs:
  "a < length h \<Longrightarrow> i < length (inputs (h ! a)) \<Longrightarrow>
   inputs (fold write_edge plan h ! a) ! i
     = (case map_of (rev plan) (a, i) of None \<Rightarrow> inputs (h ! a) ! i | Some t \<Rightarrow> the t)"
proof (induction plan arbitrary: h)
  case Nil
  then show ?case by simp
next
  case (Cons kv plan)
  have "inputs (fold write_edge plan (write_edge kv h) ! a) ! i
        = (case map_of (rev plan) (a, i) of
             None \<Rightarrow> inputs (write_edge kv h ! a) ! i | Some t \<Rightarrow> the t)"
    using Cons.prems by (intro Cons.IH) simp_all
  then show ?case
    using write_edge_inputs [OF Cons.prems, of kv]
    by (cases kv) (auto simp: map_add_def split: option.splits)
qed

lemma map_of_plan:
  "map_of (rev (map (\<lambda>e. (e, g e)) es)) e = (if e \<in> set es then Some (g e) else None)"
proof -
  have "rev (map (\<lambda>e. (e, g e)) es) = map (\<lambda>e. (e, g e)) (rev es)" by (simp add: rev_map)
  then show ?thesis by (simp add: map_of_map_restrict restrict_map_def)
qed

lemma in_all_edges:
  "e \<in> set (all_edges h nodes) = (fst e \<in> set nodes \<and> snd e < length (inputs (h ! fst e)))"
  by (cases e) (force simp: all_edges_def)

lemma in_variable_edges:
  "e \<in> set (variable_edges h nodes)
   = (fst e \<in> set nodes \<and> snd e < length (inputs (h ! fst e)) \<and>
      is_variable (h ! edge_source h e))"
  by (auto simp: variable_edges_def in_all_edges)

lemma edge_source_set_name [simp]: "edge_source (set_name h a nm) = edge_source h"
  by (rule ext) (simp add: edge_source_def)

lemma all_edges_set_name [simp]: "all_edges (set_name h a nm) nodes = all_edges h nodes"
  by (simp add: all_edges_def)

lemma variable_edges_set_name [simp]:
  "variable_edges (set_name h a nm) nodes = variable_edges h nodes"
  by (simp add: variable_edges_def)

lemma found_variables_set_name [simp]:
  "found_variables (set_name h a nm) nodes = found_variables h nodes"
  by (simp add: found_variables_def)

lemma first_head_Some: "heads a \<noteq> [] \<Longrightarrow> first_head a = Some (heads a ! 0)"
  by (cases "heads a") (simp_all add: first_head_def)

lemma pos_matched_final:
  assumes "pos_matched h args es (cnt, rmap, plan)"
  shows "(length args = cnt) = (length (first_occurrences (map (edge_source h) es)) = length args)"
  using assms by (auto simp: pos_matched_def Let_def)


lemma check_args_Some:
  "(\<exists>i. check_args args k = Some i) = (\<exists>a \<in> set args. NumReturns a = 1)"
  by (induction args arbitrary: k) auto

text \<open>
  An argument with one return stops the positional \<open>Compose\<close> at the check of line 232,
  whatever the Symbol is, before any edge is looked at.
\<close>

lemma Compose_refuses_one_return_argument:
  assumes "NumReturns s = 1" and "\<not> is_variable (h ! source (heads s ! 0))"
    and "a \<in> set args" and "NumReturns a = 1"
  shows "\<exists>i. Compose h s args nm
              = (Inl (UnsupportedTupleArgument (Inl i)), set_name h (source (heads s ! 0)) nm)"
proof -
  from assms(3,4) obtain i where "check_args args 0 = Some i"
    using check_args_Some [of args 0] by blast
  then show ?thesis using assms(1,2) by (simp add: Compose_def set_name_def Let_def)
qed


text \<open>
  Claim C7. The positional \<open>Compose\<close> on a composite (non-atomic) Symbol with one
  return matches the edges to variable nodes in traversal order: the first occurrence of
  a variable node takes the next unused argument, a later occurrence reuses it; the call
  succeeds if and only if the number of distinct variable nodes found is \<open>args.size()\<close>,
  and then every such edge leads to the head of its argument (so a variable at two edges,
  composed with one argument, leaves no free variable, both edges leading to the supplied
  node).

  The code refuses the call of the claim's own example. \<open>shared_graph\<close> is \<open>fc(x, x)\<close>,
  with the one variable node \<open>x\<close> at both edges: one distinct variable is found, and the
  call has the one argument \<open>y\<close>, a Symbol of one return. Line 232 is
  \<open>CHECK_NE(args[i].NumReturns(), 1)\<close>, so the call fails with
  \<open>UnsupportedTupleArgument\<close> at the argument 0, both edges still lead to \<open>x\<close>, and \<open>x\<close>
  is still the argument of the Symbol. This is the inverted check of claim C1.
\<close>

theorem Compose_positional_refuses_single_argument:
  "NumReturns shared_symbol = 1 \<and> \<not> Symbol_is_atomic shared_heap shared_symbol \<and>
   inputs (shared_heap ! 2) = [\<lparr>source = 0, index = 0\<rparr>, \<lparr>source = 0, index = 0\<rparr>] \<and>
   is_variable (shared_heap ! 0) \<and>
   DFSVisit shared_heap shared_symbol = Some [2, 0] \<and>
   found_variables shared_heap [2, 0] = [0] \<and>
   NumReturns shared_other = 1 \<and> length [shared_other] = length (found_variables shared_heap [2, 0]) \<and>
   (case Compose shared_heap shared_symbol [shared_other] ''fc'' of
      (r, h') \<Rightarrow> r = Inl (UnsupportedTupleArgument (Inl 0)) \<and>
        inputs (h' ! 2) = [\<lparr>source = 0, index = 0\<rparr>, \<lparr>source = 0, index = 0\<rparr>] \<and>
        ListArguments h' shared_symbol = Inr [''x''])"
  by code_simp


text \<open>
  The loop of lines 247 to 281, for the calls that the check of line 232 lets pass: no
  argument has exactly one return. Two such calls first. A bare variable is a
  non-atomic Symbol with one return, no edge and so no variable found; with no argument
  the numbers agree, and the call fails, by the guard of line 229. And in \<open>fc(x, x)\<close>,
  composed with the group of \<open>y\<close> and \<open>y\<close>, whose first head is the variable \<open>y\<close>, both
  edges lead to \<open>y\<close>, which is then the argument of the Symbol.
\<close>

lemma Compose_positional_examples:
  "(case CreateVariable [] ''x'' of (x, h) \<Rightarrow>
      NumReturns x = 1 \<and> \<not> Symbol_is_atomic h x \<and>
      DFSVisit h x = Some [0] \<and> length (found_variables h [0]) = length ([] :: Symbol list) \<and>
      fst (Compose h x [] ''g'') = Inl NotComposable) \<and>
   NumReturns shared_symbol = 1 \<and> \<not> Symbol_is_atomic shared_heap shared_symbol \<and>
   inputs (shared_heap ! 2) = [\<lparr>source = 0, index = 0\<rparr>, \<lparr>source = 0, index = 0\<rparr>] \<and>
   is_variable (shared_heap ! 0) \<and>
   (case Compose shared_heap shared_symbol [CreateGroup [shared_other, shared_other]] ''g'' of
      (r, h') \<Rightarrow> r = Inr () \<and>
        inputs (h' ! 2) = [\<lparr>source = 1, index = 0\<rparr>, \<lparr>source = 1, index = 0\<rparr>] \<and>
        ListArguments h' shared_symbol = Inr [''y''])"
  by code_simp

text \<open>
  For a Symbol with one return whose head node is neither atomic nor a variable, and
  arguments that pass the check of line 232 and have a head each, the call succeeds if
  and only if the number of distinct variable nodes found equals the number of
  arguments, and fails with \<open>ArityMismatch\<close> otherwise, the store being the old one but
  for the name of the head node. On success the variable number \<open>k\<close> in the order of first
  occurrence has the argument number \<open>k\<close>: every edge to it leads to the first head of
  that argument, every other edge and every other field of a node is as before.
\<close>

lemma Compose_matches_variables_in_order:
  assumes "wf_heap h" and "wf_symbol h s"
    and "NumReturns s = 1"
    and "\<not> is_variable (h ! source (heads s ! 0))"
    and "\<not> Symbol_is_atomic h s"
    and "check_args args 0 = None"
    and "\<forall>a \<in> set args. heads a \<noteq> []"
  shows "\<exists>nodes. DFSVisit h s = Some nodes \<and>
           ((\<exists>h'. Compose h s args nm = (Inr (), h'))
              = (length (found_variables h nodes) = length args)) \<and>
           (length (found_variables h nodes) \<noteq> length args \<longrightarrow>
              (\<exists>c. Compose h s args nm
                     = (Inl (ArityMismatch c (length args)), set_name h (source (heads s ! 0)) nm))) \<and>
           (\<forall>h'. Compose h s args nm = (Inr (), h') \<longrightarrow>
              rewired h (source (heads s ! 0)) nm nodes args h')"
proof -
  let ?hd = "source (heads s ! 0)"
  let ?h1 = "set_name h ?hd nm"
  from DFSVisit_total [OF assms(1,2)] obtain nodes where n: "DFSVisit h s = Some nodes" by blast
  let ?es = "variable_edges h nodes"
  let ?vs = "found_variables h nodes"
  obtain cnt rmap plan where
    f: "fold (visit_node_pos ?h1 args) nodes (0, Map.empty, []) = (cnt, rmap, plan)"
    by (cases "fold (visit_node_pos ?h1 args) nodes (0, Map.empty, [])")
  have pm: "pos_matched ?h1 args ?es (cnt, rmap, plan)"
    using pos_matched_all [of ?h1 args nodes] by (simp add: f)
  have fin: "(length args = cnt) = (length ?vs = length args)"
    using pos_matched_final [OF pm] by (simp add: found_variables_def)
  have na: "\<not> Symbol_is_atomic ?h1 s" using assms(5) by simp
  have n1: "DFSVisit ?h1 s = Some nodes" using n by simp
  have unfold: "Compose h s args nm =
      (if length args \<noteq> cnt then (Inl (ArityMismatch cnt (length args)), ?h1)
       else (case apply_plan plan ?h1 of
               None \<Rightarrow> (Inl Undefined, ?h1)
             | Some h2 \<Rightarrow> (Inr (), h2)))"
    using assms(3,4,6) na n1 f
    by (simp add: Compose_def Let_def set_name_def [symmetric])
  show ?thesis
  proof (cases "length ?vs = length args")
    case False
    then have e: "Compose h s args nm = (Inl (ArityMismatch cnt (length args)), ?h1)"
      using unfold fin by simp
    have 1: "(\<exists>h'. Compose h s args nm = (Inr (), h')) = (length ?vs = length args)"
      using False by (simp add: e)
    have 2: "length ?vs \<noteq> length args \<longrightarrow>
              (\<exists>c. Compose h s args nm = (Inl (ArityMismatch c (length args)), ?h1))"
      by (simp add: e)
    have 3: "\<forall>h'. Compose h s args nm = (Inr (), h') \<longrightarrow> rewired h ?hd nm nodes args h'"
      by (simp add: e)
    from n 1 2 3 show ?thesis by blast
  next
    case True
    then have c: "cnt = length args" using fin by simp
    from pm c True
    have m: "\<And>k. k < length ?vs \<Longrightarrow> rmap (?vs ! k) = Some (first_head (args ! k))"
      and p: "plan = map (\<lambda>e. (e, the (rmap (edge_source h e)))) ?es"
      by (auto simp: pos_matched_def Let_def found_variables_def)
    have target: "\<And>e k. k < length ?vs \<Longrightarrow> edge_source h e = ?vs ! k \<Longrightarrow>
                    the (rmap (edge_source h e)) = Some (heads (args ! k) ! 0)"
    proof -
      fix e k assume k: "k < length ?vs" and e: "edge_source h e = ?vs ! k"
      have "args ! k \<in> set args" using k True by simp
      then have "first_head (args ! k) = Some (heads (args ! k) ! 0)"
        using assms(7) by (intro first_head_Some) blast
      then show "the (rmap (edge_source h e)) = Some (heads (args ! k) ! 0)"
        using m [OF k] e by simp
    qed
    have index: "\<And>e. e \<in> set ?es \<Longrightarrow> \<exists>k < length ?vs. edge_source h e = ?vs ! k"
    proof -
      fix e assume "e \<in> set ?es"
      then have "edge_source h e \<in> set ?vs" by (simp add: found_variables_def)
      then show "\<exists>k < length ?vs. edge_source h e = ?vs ! k"
        by (metis in_set_conv_nth)
    qed
    have "\<forall>kv \<in> set plan. snd kv \<noteq> None"
    proof
      fix kv assume "kv \<in> set plan"
      then obtain e where e: "e \<in> set ?es" "kv = (e, the (rmap (edge_source h e)))"
        unfolding p by auto
      from index [OF e(1)] obtain k where "k < length ?vs" "edge_source h e = ?vs ! k" by blast
      from target [OF this] show "snd kv \<noteq> None" by (simp add: e(2))
    qed
    then have ap: "apply_plan plan ?h1 = Some (fold write_edge plan ?h1)" by (rule apply_plan_fold)
    let ?h' = "fold write_edge plan ?h1"
    have r: "Compose h s args nm = (Inr (), ?h')" using unfold c ap by simp
    have inp: "\<And>a i. a < length h \<Longrightarrow> i < length (inputs (h ! a)) \<Longrightarrow>
        inputs (?h' ! a) ! i
          = (if (a, i) \<in> set ?es then the (the (rmap (edge_source h (a, i))))
             else inputs (h ! a) ! i)"
    proof -
      fix a i assume a: "a < length h" and i: "i < length (inputs (h ! a))"
      have "inputs (?h' ! a) ! i
            = (case map_of (rev plan) (a, i) of
                 None \<Rightarrow> inputs (?h1 ! a) ! i | Some t \<Rightarrow> the t)"
        using a i by (intro fold_write_edge_inputs) simp_all
      then show "inputs (?h' ! a) ! i
          = (if (a, i) \<in> set ?es then the (the (rmap (edge_source h (a, i))))
             else inputs (h ! a) ! i)"
        by (simp add: p map_of_plan)
    qed
    have props: "rewired h ?hd nm nodes args ?h'"
      unfolding rewired_def
    proof (intro conjI allI impI)
      fix a i k
      assume a: "a < length h" and i: "i < length (inputs (h ! a))" and k: "k < length ?vs"
        and e: "(a, i) \<in> set ?es \<and> edge_source h (a, i) = ?vs ! k"
      from target [OF k, of "(a, i)"] e inp [OF a i]
      show "inputs (?h' ! a) ! i = heads (args ! k) ! 0" by simp
    qed (simp_all add: inp)
    have 1: "(\<exists>h'. Compose h s args nm = (Inr (), h')) = (length ?vs = length args)"
      using True r by simp
    have 2: "length ?vs \<noteq> length args \<longrightarrow>
              (\<exists>c. Compose h s args nm = (Inl (ArityMismatch c (length args)), ?h1))"
      using True by simp
    have 3: "\<forall>h'. Compose h s args nm = (Inr (), h') \<longrightarrow> rewired h ?hd nm nodes args h'"
      using props by (simp add: r)
    from n 1 2 3 show ?thesis by blast
  qed
qed

lemma Compose_matches_variables_in_order_example:
  "wf_heap shared_heap \<and> wf_symbol shared_heap shared_symbol \<and>
   NumReturns shared_symbol = 1 \<and>
   \<not> is_variable (shared_heap ! source (heads shared_symbol ! 0)) \<and>
   \<not> Symbol_is_atomic shared_heap shared_symbol \<and>
   check_args [CreateGroup [shared_other, shared_other]] 0 = None \<and>
   heads (CreateGroup [shared_other, shared_other])
     = [\<lparr>source = 1, index = 0\<rparr>, \<lparr>source = 1, index = 0\<rparr>] \<and>
   DFSVisit shared_heap shared_symbol = Some [2, 0] \<and>
   variable_edges shared_heap [2, 0] = [(2, 0), (2, 1)] \<and>
   found_variables shared_heap [2, 0] = [0] \<and>
   (\<exists>h'. Compose shared_heap shared_symbol [CreateGroup [shared_other, shared_other]] ''g''
           = (Inr (), h') \<and>
         inputs (h' ! 2) ! 0 = \<lparr>source = 1, index = 0\<rparr> \<and>
         inputs (h' ! 2) ! 1 = \<lparr>source = 1, index = 0\<rparr>)"
proof -
  let ?args = "[CreateGroup [shared_other, shared_other]]"
  have a: "wf_heap shared_heap" "wf_symbol shared_heap shared_symbol"
    "NumReturns shared_symbol = 1"
    "\<not> is_variable (shared_heap ! source (heads shared_symbol ! 0))"
    "\<not> Symbol_is_atomic shared_heap shared_symbol"
    "check_args ?args 0 = None"
    by code_simp+
  have ne: "\<forall>a \<in> set ?args. heads a \<noteq> []" by code_simp
  have b: "heads (CreateGroup [shared_other, shared_other])
     = [\<lparr>source = 1, index = 0\<rparr>, \<lparr>source = 1, index = 0\<rparr>]"
    "DFSVisit shared_heap shared_symbol = Some [2, 0]"
    "variable_edges shared_heap [2, 0] = [(2, 0), (2, 1)]"
    "found_variables shared_heap [2, 0] = [0]"
    by code_simp+
  have c: "length shared_heap = 3" "length (inputs (shared_heap ! 2)) = 2"
    "edge_source shared_heap (2, 0) = 0" "edge_source shared_heap (2, 1) = 0"
    by code_simp+
  from Compose_matches_variables_in_order [OF a ne, of "''g''"]
  obtain nodes where n: "DFSVisit shared_heap shared_symbol = Some nodes"
    and iff: "(\<exists>h'. Compose shared_heap shared_symbol ?args ''g'' = (Inr (), h'))
              = (length (found_variables shared_heap nodes) = length ?args)"
    and rw: "\<forall>h'. Compose shared_heap shared_symbol ?args ''g'' = (Inr (), h') \<longrightarrow>
              rewired shared_heap (source (heads shared_symbol ! 0)) ''g'' nodes ?args h'"
    by blast
  from n b(2) have nodes: "nodes = [2, 0]" by simp
  from iff obtain h' where h': "Compose shared_heap shared_symbol ?args ''g'' = (Inr (), h')"
    unfolding nodes b(4) by auto
  with rw have r: "rewired shared_heap (source (heads shared_symbol ! 0)) ''g'' [2, 0] ?args h'"
    unfolding nodes by blast
  have e0: "inputs (h' ! 2) ! 0 = heads (?args ! 0) ! 0"
    using r c unfolding rewired_def b(3,4) by force
  have e1: "inputs (h' ! 2) ! 1 = heads (?args ! 0) ! 0"
    using r c unfolding rewired_def b(3,4) by force
  have "inputs (h' ! 2) ! 0 = \<lparr>source = 1, index = 0\<rparr>" "inputs (h' ! 2) ! 1 = \<lparr>source = 1, index = 0\<rparr>"
    using e0 e1 b(1) by simp_all
  with h' have "\<exists>h'. Compose shared_heap shared_symbol ?args ''g'' = (Inr (), h') \<and>
         inputs (h' ! 2) ! 0 = \<lparr>source = 1, index = 0\<rparr> \<and>
         inputs (h' ! 2) ! 1 = \<lparr>source = 1, index = 0\<rparr>" by blast
  with a b show ?thesis by simp
qed

subsection \<open>ListReturns on a gradient head\<close>

lemma head_return_no_op:
  "op (h ! source e) = None \<Longrightarrow> backward_source_node (h ! source e) \<noteq> None \<Longrightarrow>
   head_return h e = Inl Undefined"
  by (auto simp: head_return_def is_variable_def Let_def)

lemma head_return_Inr:
  "head_return h e = Inr r \<Longrightarrow> is_variable (h ! source e) \<or> op (h ! source e) \<noteq> None"
  by (auto simp: head_return_def Let_def split: if_splits option.splits)

lemma head_return_Inl: "head_return h e = Inl err \<Longrightarrow> err = Undefined"
  by (auto simp: head_return_def Let_def split: if_splits option.splits)

lemma ListReturns_loop_Inl: "ListReturns_loop h hs = Inl err \<Longrightarrow> err = Undefined"
  by (induction hs arbitrary: err) (auto split: sum.splits dest: head_return_Inl)

lemma ListReturns_loop_Inr:
  "ListReturns_loop h hs = Inr r \<Longrightarrow> e \<in> set hs \<Longrightarrow> \<exists>x. head_return h e = Inr x"
  by (induction hs arbitrary: r) (auto split: sum.splits)

lemma ListReturns_loop_fails:
  "e \<in> set hs \<Longrightarrow> head_return h e = Inl Undefined \<Longrightarrow> ListReturns_loop h hs = Inl Undefined"
proof -
  assume e: "e \<in> set hs" and f: "head_return h e = Inl Undefined"
  show ?thesis
  proof (cases "ListReturns_loop h hs")
    case (Inl err)
    then show ?thesis using ListReturns_loop_Inl by simp
  next
    case (Inr r)
    from ListReturns_loop_Inr [OF Inr e] f show ?thesis by simp
  qed
qed

lemma act_grad_value:
  "act_grad = (Inr \<lparr>heads = [\<lparr>source = 3, index = 0\<rparr>]\<rparr>,
     [\<lparr>backward_source_node = None, op = Some Activation, name = ''act'',
        inputs = [\<lparr>source = 1, index = 0\<rparr>]\<rparr>,
      \<lparr>backward_source_node = None, op = None, name = ''x'', inputs = []\<rparr>,
      \<lparr>backward_source_node = None, op = None, name = ''act_0_grad'', inputs = []\<rparr>,
      \<lparr>backward_source_node = Some 0, op = None, name = ''act_backward'',
        inputs = [\<lparr>source = 2, index = 0\<rparr>, \<lparr>source = 1, index = 0\<rparr>]\<rparr>])"
  by code_simp

text \<open>
  Claim C10. \<open>ListReturns()\<close> returns only for a Symbol whose every head node is a
  variable or has an operator of its own. For a head whose node has no operator and has a
  backward source, the kind of node \<open>Grad()\<close> creates, it reads the operator that is not
  there (the backward source's operator is not asked), so \<open>ListReturns()\<close> on such a
  result of \<open>Grad()\<close> is undefined.
\<close>

theorem ListReturns_gradient_head:
  "(\<forall>r. ListReturns h s = Inr r \<longrightarrow>
      (\<forall>e \<in> set (heads s). is_variable (h ! source e) \<or> op (h ! source e) \<noteq> None)) \<and>
   ((\<exists>e \<in> set (heads s). op (h ! source e) = None \<and> backward_source_node (h ! source e) \<noteq> None)
      \<longrightarrow> ListReturns h s = Inl Undefined)"
proof (intro conjI allI impI ballI)
  fix r e
  assume "ListReturns h s = Inr r" and "e \<in> set (heads s)"
  then obtain x where "head_return h e = Inr x"
    unfolding ListReturns_def using ListReturns_loop_Inr by blast
  then show "is_variable (h ! source e) \<or> op (h ! source e) \<noteq> None"
    by (rule head_return_Inr)
next
  assume "\<exists>e \<in> set (heads s). op (h ! source e) = None \<and> backward_source_node (h ! source e) \<noteq> None"
  then obtain e where e: "e \<in> set (heads s)" "op (h ! source e) = None"
    "backward_source_node (h ! source e) \<noteq> None" by blast
  show "ListReturns h s = Inl Undefined"
    unfolding ListReturns_def
    by (rule ListReturns_loop_fails [OF e(1) head_return_no_op [OF e(2) e(3)]])
qed

text \<open>The gradient of \<open>act(x)\<close>, as \<open>Grad\<close> returns it, is such a Symbol.\<close>

theorem ListReturns_gradient_head_witness:
  "fst act_grad = Inr act_grad_symbol \<and>
   (\<exists>e \<in> set (heads act_grad_symbol).
      op (act_grad_heap ! source e) = None \<and>
      backward_source_node (act_grad_heap ! source e) \<noteq> None) \<and>
   ListReturns act_grad_heap act_grad_symbol = Inl Undefined"
  using ListReturns_gradient_head [of act_grad_heap act_grad_symbol]
  by (simp add: act_grad_value act_grad_symbol_def act_grad_heap_def)

subsection \<open>Copy, and operator() on the copy\<close>

text \<open>
  What \<open>Copy\<close> computes, in closed form: every pointer the loops look up in \<open>old_new\<close>
  is a node of the traversal, so no lookup inserts a null pointer.
\<close>

lemma map_of_copy_address:
  assumes "distinct nodes" "a \<in> set nodes"
  shows "map_of (zip nodes [length h ..< length h + length nodes]) a
         = Some (copy_address h nodes a)"
proof -
  from assms(2) obtain i where i: "i < length nodes" "nodes ! i = a"
    by (auto simp: in_set_conv_nth)
  have "map_of (zip nodes [length h ..< length h + length nodes]) (nodes ! i)
        = Some ([length h ..< length h + length nodes] ! i)"
    using assms(1) i(1) by (intro map_of_zip_nth) simp_all
  then show ?thesis using i by (simp add: copy_address_def)
qed

lemma copy_address_nth:
  assumes "distinct nodes" "i < length nodes"
  shows "copy_address h nodes (nodes ! i) = length h + i"
proof -
  have "map_of (zip nodes [length h ..< length h + length nodes]) (nodes ! i)
        = Some ([length h ..< length h + length nodes] ! i)"
    using assms by (intro map_of_zip_nth) simp_all
  then show ?thesis using assms(2) by (simp add: copy_address_def)
qed

lemma map_copy_address:
  assumes "distinct nodes"
  shows "map (copy_address h nodes) nodes = [length h ..< length h + length nodes]"
  using assms by (intro nth_equalityI) (simp_all add: copy_address_nth)

lemma inj_on_copy_address:
  assumes "distinct nodes"
  shows "inj_on (copy_address h nodes) (set nodes)"
proof -
  have "distinct (map (copy_address h nodes) nodes)"
    by (simp add: map_copy_address [OF assms])
  then show ?thesis by (simp add: distinct_map)
qed

lemma remap_copy_address:
  assumes "distinct nodes" "source e \<in> set nodes"
  shows "remap (zip nodes [length h ..< length h + length nodes]) e
         = Some \<lparr>source = copy_address h nodes (source e), index = index e\<rparr>"
  by (simp add: remap_def map_of_copy_address [OF assms])

lemma those_map_Some:
  "(\<And>x. x \<in> set xs \<Longrightarrow> g x = Some (k x)) \<Longrightarrow> those (map g xs) = Some (map k xs)"
  by (induction xs) simp_all

lemma those_remap:
  assumes "distinct nodes" "source ` set es \<subseteq> set nodes"
  shows "those (map (remap (zip nodes [length h ..< length h + length nodes])) es)
         = Some (map (\<lambda>e. \<lparr>source = copy_address h nodes (source e), index = index e\<rparr>) es)"
  using assms by (intro those_map_Some remap_copy_address) auto

text \<open>The store while the connecting loop runs: \<open>k\<close> new nodes have their inputs.\<close>

lemma connect_nodes_copied_aux:
  assumes d: "distinct nodes" and v: "set nodes \<subseteq> {..< length h}"
    and c: "\<And>a. a \<in> set nodes \<Longrightarrow> source ` set (inputs (h ! a)) \<subseteq> set nodes"
  shows "k \<le> length nodes \<Longrightarrow>
    connect_nodes (zip nodes [length h ..< length h + length nodes])
      (drop k (zip nodes [length h ..< length h + length nodes]))
      (h @ map (copied_node h nodes) (take k nodes)
         @ map (\<lambda>a. new_Node (map_option op_Copy (op (h ! a))) (name (h ! a))) (drop k nodes))
    = Some (copied h nodes)"
proof (induction "length nodes - k" arbitrary: k)
  case 0
  then show ?case by (simp add: copied_def)
next
  case (Suc m)
  let ?on = "zip nodes [length h ..< length h + length nodes]"
  let ?bare = "\<lambda>a. new_Node (map_option op_Copy (op (h ! a))) (name (h ! a))"
  let ?H = "\<lambda>k. h @ map (copied_node h nodes) (take k nodes) @ map ?bare (drop k nodes)"
  from Suc.hyps(2) have k: "k < length nodes" by simp
  have a: "nodes ! k \<in> set nodes" using k by simp
  then have lt: "nodes ! k < length h" using v by auto
  have dr: "drop k ?on = (nodes ! k, length h + k) # drop (Suc k) ?on"
    using k by (simp add: Cons_nth_drop_Suc [symmetric])
  have old: "?H k ! (nodes ! k) = h ! (nodes ! k)" using lt by (simp add: nth_append)
  have th: "those (map (remap ?on) (inputs (h ! (nodes ! k))))
            = Some (map (\<lambda>e. \<lparr>source = copy_address h nodes (source e), index = index e\<rparr>)
                      (inputs (h ! (nodes ! k))))"
    using d c [OF a] by (rule those_remap)
  have dk: "drop k nodes = nodes ! k # drop (Suc k) nodes"
    using k by (simp add: Cons_nth_drop_Suc)
  have tk: "take (Suc k) nodes = take k nodes @ [nodes ! k]"
    using k by (simp add: take_Suc_conv_app_nth)
  have new: "?H k ! (length h + k) = ?bare (nodes ! k)"
    using k by (simp add: nth_append dk)
  have up: "(?H k)[length h + k := copied_node h nodes (nodes ! k)] = ?H (Suc k)"
    using k by (simp add: list_update_append dk tk)
  have cn: "?bare (nodes ! k)\<lparr>inputs := inputs (?bare (nodes ! k))
              @ map (\<lambda>e. \<lparr>source = copy_address h nodes (source e), index = index e\<rparr>)
                  (inputs (h ! (nodes ! k)))\<rparr> = copied_node h nodes (nodes ! k)"
    by (simp add: new_Node_def copied_node_def)
  have "connect_nodes ?on (drop k ?on) (?H k) = connect_nodes ?on (drop (Suc k) ?on) (?H (Suc k))"
    unfolding dr connect_nodes.simps fst_conv snd_conv old th option.case new cn up ..
  also have "\<dots> = Some (copied h nodes)"
    using Suc.hyps(2) k by (intro Suc.hyps(1)) simp_all
  finally show ?case .
qed

lemma connect_nodes_copied:
  assumes "DFSVisit h s = Some nodes"
  shows "connect_nodes (zip nodes [length h ..< length h + length nodes])
           (zip nodes [length h ..< length h + length nodes])
           (h @ map (\<lambda>a. new_Node (map_option op_Copy (op (h ! a))) (name (h ! a))) nodes)
         = Some (copied h nodes)"
proof -
  have d: "distinct nodes" using assms by (rule DFSVisit_distinct)
  have v: "set nodes \<subseteq> {..< length h}" using assms by (rule DFSVisit_valid)
  have c: "\<And>a. a \<in> set nodes \<Longrightarrow> source ` set (inputs (h ! a)) \<subseteq> set nodes"
    using DFSVisit_closed [OF assms] by (simp add: node_sources_def)
  show ?thesis using connect_nodes_copied_aux [OF d v c, of 0] by simp
qed

lemma heads_in_nodes:
  assumes "DFSVisit h s = Some nodes"
  shows "source ` set (heads s) \<subseteq> set nodes"
  using DFSVisit_reachable [OF assms] reachable_head [of _ s h] by auto

lemma Copy_eq:
  assumes "DFSVisit h s = Some nodes"
  shows "Copy h s = (Inr (rename_symbol (copy_address h nodes) s), copied h nodes)"
proof -
  have d: "distinct nodes" using assms by (rule DFSVisit_distinct)
  show ?thesis
    by (simp add: Copy_def assms Let_def connect_nodes_copied [OF assms]
        those_remap [OF d heads_in_nodes [OF assms]] rename_symbol_def)
qed

lemma dfs_loop_same_on:
  "same_structure_on f A h h' \<Longrightarrow> set st \<subseteq> A \<Longrightarrow> V \<subseteq> A \<Longrightarrow>
   dfs_loop h' (map f st) (f ` V) = map_option (map f) (dfs_loop h st V)"
proof (induction h st V rule: dfs_loop_induct)
  case (Nil h V)
  then show ?case by simp
next
  case (Cons h b st V)
  have bA: "b \<in> A" using Cons.prems(2) by simp
  have inj: "inj_on f A" and fb: "f b < length h'"
    and src: "node_sources h' (f b) = map f (node_sources h b)"
    and sub: "set (node_sources h b) \<subseteq> A"
    using Cons.prems(1) bA by (auto simp: same_structure_on_def)
  have "filter (\<lambda>x. x \<notin> f ` V) (map f (node_sources h b))
        = map f (filter (\<lambda>x. x \<notin> V) (node_sources h b))"
    by (rule filter_map_image_inj_on [OF inj sub Cons.prems(3)])
  moreover have "inj_on f (set (filter (\<lambda>x. x \<notin> V) (node_sources h b)))"
    using inj sub by (auto intro: inj_on_subset)
  ultimately have new: "unmarked_inputs h' (f ` V) (f b) = map f (unmarked_inputs h V b)"
    by (simp add: unmarked_inputs_def src remdups_map_inj_on)
  have V': "f ` V \<union> set (node_sources h' (f b)) = f ` (V \<union> set (node_sources h b))"
    by (auto simp: src)
  have "dfs_loop h' (map f (unmarked_inputs h V b @ st)) (f ` (V \<union> set (node_sources h b)))
        = map_option (map f) (dfs_loop h (unmarked_inputs h V b @ st) (V \<union> set (node_sources h b)))"
    using Cons.prems sub by (intro Cons.IH) auto
  then show ?case
    using Cons.hyps fb by (simp add: dfs_loop_Cons new V' option.map_comp comp_def)
next
  case (Dangling h b st V)
  then show ?case by (auto simp: same_structure_on_def)
qed

lemma DFSVisit_same_on:
  assumes "same_structure_on f A h h'" "source ` set (heads s) \<subseteq> A"
  shows "DFSVisit h' (rename_symbol f s) = map_option (map f) (DFSVisit h s)"
proof -
  have inj: "inj_on f (set (rev (map source (heads s))))"
    using assms by (auto simp: same_structure_on_def intro: inj_on_subset)
  have m: "map source (heads (rename_symbol f s)) = map f (map source (heads s))"
    by (simp add: rename_symbol_def comp_def)
  have "source ` set (heads (rename_symbol f s)) = set (map source (heads (rename_symbol f s)))"
    by simp
  also have "\<dots> = f ` (source ` set (heads s))" unfolding m by (simp add: image_image)
  finally have i: "source ` set (heads (rename_symbol f s)) = f ` (source ` set (heads s))" .
  have "remdups (rev (map source (heads (rename_symbol f s))))
        = map f (remdups (rev (map source (heads s))))"
    using remdups_map_inj_on [OF inj] by (simp add: m rev_map)
  then have "DFSVisit h' (rename_symbol f s)
        = dfs_loop h' (map f (remdups (rev (map source (heads s))))) (f ` (source ` set (heads s)))"
    by (simp only: DFSVisit_eq i)
  also have "\<dots> = map_option (map f) (dfs_loop h (remdups (rev (map source (heads s)))) (source ` set (heads s)))"
    using assms(2) by (intro dfs_loop_same_on [OF assms(1)]) auto
  finally show ?thesis by (simp add: DFSVisit_eq)
qed

lemma length_copied [simp]: "length (copied h nodes) = length h + length nodes"
  by (simp add: copied_def)

lemma copied_old: "a < length h \<Longrightarrow> copied h nodes ! a = h ! a"
  by (simp add: copied_def nth_append)

lemma take_copied [simp]: "take (length h) (copied h nodes) = h"
  by (simp add: copied_def)

lemma copied_new:
  assumes "distinct nodes" "a \<in> set nodes"
  shows "copy_address h nodes a < length (copied h nodes)"
    "length h \<le> copy_address h nodes a"
    "copied h nodes ! copy_address h nodes a = copied_node h nodes a"
proof -
  from assms(2) obtain i where i: "i < length nodes" "nodes ! i = a"
    by (auto simp: in_set_conv_nth)
  have f: "copy_address h nodes a = length h + i"
    using copy_address_nth [OF assms(1) i(1), of h] i(2) by simp
  show "copy_address h nodes a < length (copied h nodes)" using i(1) by (simp add: f)
  show "length h \<le> copy_address h nodes a" by (simp add: f)
  show "copied h nodes ! copy_address h nodes a = copied_node h nodes a"
    using i by (simp add: f copied_def)
qed

lemma copied_same_structure:
  assumes "DFSVisit h s = Some nodes"
  shows "same_structure_on (copy_address h nodes) (set nodes) h (copied h nodes)"
proof -
  have d: "distinct nodes" using assms by (rule DFSVisit_distinct)
  have v: "set nodes \<subseteq> {..< length h}" using assms by (rule DFSVisit_valid)
  show ?thesis
    unfolding same_structure_on_def
  proof (intro conjI ballI)
    show "inj_on (copy_address h nodes) (set nodes)" by (rule inj_on_copy_address [OF d])
  next
    fix a assume a: "a \<in> set nodes"
    show "a < length h" using v a by auto
    show "set (node_sources h a) \<subseteq> set nodes" by (rule DFSVisit_closed [OF assms a])
    show "copy_address h nodes a < length (copied h nodes)" by (rule copied_new(1) [OF d a])
    show "node_sources (copied h nodes) (copy_address h nodes a)
          = map (copy_address h nodes) (node_sources h a)"
      by (simp add: node_sources_def copied_new(3) [OF d a] copied_node_def comp_def)
  qed
qed

lemma DFSVisit_copied:
  assumes "DFSVisit h s = Some nodes"
  shows "DFSVisit (copied h nodes) (rename_symbol (copy_address h nodes) s)
         = Some (map (copy_address h nodes) nodes)"
  using DFSVisit_same_on [OF copied_same_structure [OF assms] heads_in_nodes [OF assms]] assms
  by simp

lemma reachable_copied:
  assumes "DFSVisit h s = Some nodes"
  shows "reachable (copied h nodes) (rename_symbol (copy_address h nodes) s)
         = {length h ..< length h + length nodes}"
proof -
  have d: "distinct nodes" using assms by (rule DFSVisit_distinct)
  have "reachable (copied h nodes) (rename_symbol (copy_address h nodes) s)
        = set (map (copy_address h nodes) nodes)"
    using DFSVisit_reachable [OF DFSVisit_copied [OF assms]] by simp
  then show ?thesis by (simp only: map_copy_address [OF d] set_upt)
qed

lemma copied_node_simps [simp]:
  "op (copied_node h nodes a) = op (h ! a)"
  "name (copied_node h nodes a) = name (h ! a)"
  "backward_source_node (copied_node h nodes a) = None"
  "length (inputs (copied_node h nodes a)) = length (inputs (h ! a))"
  by (cases "op (h ! a)"; simp add: copied_node_def op_Copy_def)+

lemma is_atomic_copied_node [simp]: "is_atomic (copied_node h nodes a) = is_atomic (h ! a)"
  by (simp add: is_atomic_def)

lemma is_variable_copied_node:
  "backward_source_node (h ! a) = None \<Longrightarrow> is_variable (copied_node h nodes a) = is_variable (h ! a)"
  by (simp add: is_variable_def)

lemma head_return_copied:
  assumes "distinct nodes" "source e \<in> set nodes" "backward_source_node (h ! source e) = None"
  shows "head_return (copied h nodes) \<lparr>source = copy_address h nodes (source e), index = index e\<rparr>
         = head_return h e"
  by (simp add: head_return_def copied_new(3) [OF assms(1,2)] is_variable_copied_node [OF assms(3)]
      Let_def split: option.splits)

lemma ListReturns_loop_copied:
  assumes "distinct nodes"
  shows "source ` set es \<subseteq> set nodes \<Longrightarrow>
    \<forall>e \<in> set es. backward_source_node (h ! source e) = None \<Longrightarrow>
    ListReturns_loop (copied h nodes)
      (map (\<lambda>e. \<lparr>source = copy_address h nodes (source e), index = index e\<rparr>) es)
    = ListReturns_loop h es"
  by (induction es) (simp_all add: head_return_copied [OF assms] split: sum.splits)

lemma Symbol_is_atomic_copied:
  assumes "DFSVisit h s = Some nodes"
  shows "Symbol_is_atomic (copied h nodes) (rename_symbol (copy_address h nodes) s)
         = Symbol_is_atomic h s"
proof (cases "length (heads s) = 1")
  case True
  then have "heads s ! 0 \<in> set (heads s)" by (cases "heads s") auto
  then have a: "source (heads s ! 0) \<in> set nodes" using heads_in_nodes [OF assms] by auto
  have d: "distinct nodes" using assms by (rule DFSVisit_distinct)
  show ?thesis
    using True by (simp add: Symbol_is_atomic_def rename_symbol_def copied_new(3) [OF d a])
next
  case False
  then show ?thesis by (simp add: Symbol_is_atomic_def rename_symbol_def)
qed

lemma ListArguments_copied:
  assumes n: "DFSVisit h s = Some nodes"
    and g: "\<forall>a \<in> set nodes. backward_source_node (h ! a) = None"
  shows "ListArguments (copied h nodes) (rename_symbol (copy_address h nodes) s)
         = ListArguments h s"
proof (cases "Symbol_is_atomic h s")
  case True
  then have l: "length (heads s) = 1" by (simp add: Symbol_is_atomic_def)
  then have "heads s ! 0 \<in> set (heads s)" by (cases "heads s") auto
  then have a: "source (heads s ! 0) \<in> set nodes" using heads_in_nodes [OF n] by auto
  have d: "distinct nodes" using n by (rule DFSVisit_distinct)
  have "source (heads (rename_symbol (copy_address h nodes) s) ! 0)
        = copy_address h nodes (source (heads s ! 0))"
    using l by (simp add: rename_symbol_def)
  then show ?thesis
    using True
    by (simp add: ListArguments_def Symbol_is_atomic_copied [OF n] copied_new(3) [OF d a])
next
  case False
  have d: "distinct nodes" using n by (rule DFSVisit_distinct)
  have v: "\<And>a. a \<in> set nodes \<Longrightarrow>
      is_variable (copied h nodes ! copy_address h nodes a) = is_variable (h ! a)"
    using g by (simp add: copied_new(3) [OF d] is_variable_copied_node)
  have nm: "\<And>a. a \<in> set nodes \<Longrightarrow> name (copied h nodes ! copy_address h nodes a) = name (h ! a)"
    by (simp add: copied_new(3) [OF d])
  have f: "filter (\<lambda>a. is_variable (copied h nodes ! a)) (map (copy_address h nodes) nodes)
        = map (copy_address h nodes) (filter (\<lambda>a. is_variable (h ! a)) nodes)"
    unfolding filter_map comp_def using v by (metis (mono_tags, lifting) filter_cong)
  have "map (\<lambda>a. name (copied h nodes ! a))
          (filter (\<lambda>a. is_variable (copied h nodes ! a)) (map (copy_address h nodes) nodes))
        = map (\<lambda>a. name (h ! a)) (filter (\<lambda>a. is_variable (h ! a)) nodes)"
    unfolding f map_map comp_def using nm by (intro map_cong) auto
  then show ?thesis
    using False
    by (simp add: ListArguments_def Symbol_is_atomic_copied [OF n] DFSVisit_copied [OF n] n)
qed

lemma ListReturns_copied:
  assumes n: "DFSVisit h s = Some nodes"
    and g: "\<forall>a \<in> set nodes. backward_source_node (h ! a) = None"
  shows "ListReturns (copied h nodes) (rename_symbol (copy_address h nodes) s)
         = ListReturns h s"
proof -
  have d: "distinct nodes" using n by (rule DFSVisit_distinct)
  have "\<forall>e \<in> set (heads s). backward_source_node (h ! source e) = None"
    using g heads_in_nodes [OF n] by auto
  from ListReturns_loop_copied [OF d heads_in_nodes [OF n] this]
  show ?thesis by (simp add: ListReturns_def rename_symbol_def)
qed

text \<open>
  \<open>Copy\<close> on a well-formed store returns: the nodes of the traversal are copied to new
  addresses behind the old nodes, which stay as they are; the copy has the operators, the
  names and, at the new addresses, the edges of the original, and no backward source; the
  copied Symbol reaches the new nodes only and is traversed in the order of the original.
\<close>

lemma Copy_same_graph:
  assumes "wf_heap h" and "wf_symbol h s"
  shows "\<exists>nodes s' h'.
           DFSVisit h s = Some nodes \<and> Copy h s = (Inr s', h') \<and>
           s' = rename_symbol (copy_address h nodes) s \<and>
           length h' = length h + length nodes \<and> take (length h) h' = h \<and>
           same_structure_on (copy_address h nodes) (set nodes) h h' \<and>
           (\<forall>a \<in> set nodes.
              op (h' ! copy_address h nodes a) = op (h ! a) \<and>
              name (h' ! copy_address h nodes a) = name (h ! a) \<and>
              backward_source_node (h' ! copy_address h nodes a) = None) \<and>
           DFSVisit h' s' = Some (map (copy_address h nodes) nodes) \<and>
           reachable h' s' = {length h ..< length h'}"
proof -
  from DFSVisit_total [OF assms] obtain nodes where n: "DFSVisit h s = Some nodes" by blast
  have d: "distinct nodes" using n by (rule DFSVisit_distinct)
  have "\<forall>a \<in> set nodes.
          op (copied h nodes ! copy_address h nodes a) = op (h ! a) \<and>
          name (copied h nodes ! copy_address h nodes a) = name (h ! a) \<and>
          backward_source_node (copied h nodes ! copy_address h nodes a) = None"
    by (simp add: copied_new(3) [OF d])
  moreover have "reachable (copied h nodes) (rename_symbol (copy_address h nodes) s)
                 = {length h ..< length (copied h nodes)}"
    by (simp add: reachable_copied [OF n])
  ultimately show ?thesis
    using n Copy_eq [OF n] copied_same_structure [OF n] DFSVisit_copied [OF n]
    by (intro exI [of _ nodes] exI [of _ "rename_symbol (copy_address h nodes) s"]
          exI [of _ "copied h nodes"]) simp
qed

text \<open>
  When no node of the traversal has a backward source, the copy has the arguments, the
  returns and the head indices of the original.
\<close>

lemma Copy_same_interface:
  assumes "DFSVisit h s = Some nodes"
    and "\<forall>a \<in> set nodes. backward_source_node (h ! a) = None"
    and "Copy h s = (r, h')"
  shows "\<exists>s'. r = Inr s' \<and> ListArguments h' s' = ListArguments h s \<and>
           ListReturns h' s' = ListReturns h s \<and>
           map index (heads s') = map index (heads s)"
proof -
  have r: "r = Inr (rename_symbol (copy_address h nodes) s)" and h': "h' = copied h nodes"
    using Copy_eq [OF assms(1)] assms(3) by simp_all
  have "map index (heads (rename_symbol (copy_address h nodes) s)) = map index (heads s)"
    by (simp add: rename_symbol_def comp_def)
  then show ?thesis
    using ListArguments_copied [OF assms(1,2)] ListReturns_copied [OF assms(1,2)]
    by (simp add: r h')
qed

lemma Copy_diamond_graph:
  "Copy (snd diamond_graph) (fst diamond_graph)
   = (Inr \<lparr>heads = [\<lparr>source = 3, index = 0\<rparr>]\<rparr>,
      snd diamond_graph @
      [\<lparr>backward_source_node = None, op = Some FullyConnected, name = ''fc'',
         inputs = [\<lparr>source = 4, index = 0\<rparr>, \<lparr>source = 5, index = 0\<rparr>]\<rparr>,
       \<lparr>backward_source_node = None, op = Some Activation, name = ''act'',
         inputs = [\<lparr>source = 5, index = 0\<rparr>]\<rparr>,
       \<lparr>backward_source_node = None, op = None, name = ''x'', inputs = []\<rparr>])"
  by code_simp

lemma apply_plan_length: "apply_plan plan h = Some h2 \<Longrightarrow> length h2 = length h"
  by (induction plan arbitrary: h) (auto split: option.splits)

lemma apply_plan_other:
  "apply_plan plan h = Some h2 \<Longrightarrow> a \<notin> fst ` fst ` set plan \<Longrightarrow> h2 ! a = h ! a"
  by (induction plan arbitrary: h) (auto split: option.splits)

lemma visit_edge_pos_places:
  "fst ` fst ` set (snd (snd (visit_edge_pos h args node i st)))
   \<subseteq> insert node (fst ` fst ` set (snd (snd st)))"
  by (cases st) (auto simp: visit_edge_pos_def Let_def split: option.splits)

lemma visit_node_pos_places:
  "fst ` fst ` set (snd (snd (visit_node_pos h args node st)))
   \<subseteq> insert node (fst ` fst ` set (snd (snd st)))"
proof -
  have "fst ` fst ` set (snd (snd (fold (visit_edge_pos h args node) ks st)))
        \<subseteq> insert node (fst ` fst ` set (snd (snd st)))" for ks
  proof (induction ks arbitrary: st)
    case Nil
    show ?case by auto
  next
    case (Cons k ks)
    show ?case
      using Cons.IH [of "visit_edge_pos h args node k st"] visit_edge_pos_places [of h args node k st]
      by auto
  qed
  then show ?thesis by (simp add: visit_node_pos_def)
qed

lemma fold_visit_node_pos_places:
  "fst ` fst ` set (snd (snd (fold (visit_node_pos h args) nodes st)))
   \<subseteq> set nodes \<union> fst ` fst ` set (snd (snd st))"
proof (induction nodes arbitrary: st)
  case Nil
  show ?case by auto
next
  case (Cons n nodes)
  show ?case
    using Cons.IH [of "visit_node_pos h args n st"] visit_node_pos_places [of h args n st]
    by auto
qed

lemma visit_edge_kw_places:
  "fst ` fst ` set (snd (snd (visit_edge_kw h kwargs node i st)))
   \<subseteq> insert node (fst ` fst ` set (snd (snd st)))"
  by (cases st) (auto simp: visit_edge_kw_def Let_def split: option.splits)

lemma visit_node_kw_places:
  "fst ` fst ` set (snd (snd (visit_node_kw h kwargs node st)))
   \<subseteq> insert node (fst ` fst ` set (snd (snd st)))"
proof -
  have "fst ` fst ` set (snd (snd (fold (visit_edge_kw h kwargs node) ks st)))
        \<subseteq> insert node (fst ` fst ` set (snd (snd st)))" for ks
  proof (induction ks arbitrary: st)
    case Nil
    show ?case by auto
  next
    case (Cons k ks)
    show ?case
      using Cons.IH [of "visit_edge_kw h kwargs node k st"] visit_edge_kw_places [of h kwargs node k st]
      by auto
  qed
  then show ?thesis by (simp add: visit_node_kw_def)
qed

lemma fold_visit_node_kw_places:
  "fst ` fst ` set (snd (snd (fold (visit_node_kw h kwargs) nodes st)))
   \<subseteq> set nodes \<union> fst ` fst ` set (snd (snd st))"
proof (induction nodes arbitrary: st)
  case Nil
  show ?case by auto
next
  case (Cons n nodes)
  show ?case
    using Cons.IH [of "visit_node_kw h kwargs n st"] visit_node_kw_places [of h kwargs n st]
    by auto
qed

lemma pos_plan_other:
  assumes "fold (visit_node_pos h args) nodes (0, Map.empty, []) = (cnt, rm, plan)"
    and "apply_plan plan h = Some h2" and "a \<notin> set nodes"
  shows "h2 ! a = h ! a"
proof -
  have "fst ` fst ` set plan \<subseteq> set nodes"
    using fold_visit_node_pos_places [of h args nodes "(0, Map.empty, [])"] assms(1) by simp
  then show ?thesis using assms(2,3) by (intro apply_plan_other) auto
qed

lemma kw_plan_other:
  assumes "fold (visit_node_kw h kwargs) nodes (0, {}, []) = (cnt, vs, plan)"
    and "apply_plan plan h = Some h2" and "a \<notin> set nodes"
  shows "h2 ! a = h ! a"
proof -
  have "fst ` fst ` set plan \<subseteq> set nodes"
    using fold_visit_node_kw_places [of h kwargs nodes "(0, {}, [])"] assms(1) by simp
  then show ?thesis using assms(2,3) by (intro apply_plan_other) auto
qed

lemma report_unmatched_snd [simp]: "snd (report_unmatched h s kwargs n) = h"
  by (auto simp: report_unmatched_def split: sum.splits option.splits)

text \<open>A node the Symbol does not reach is after \<open>Compose\<close> what it was before.\<close>

lemma Compose_other:
  assumes "a \<notin> reachable h s"
  shows "snd (Compose h s args nm) ! a = h ! a"
proof (cases "NumReturns s = 1")
  case False
  then show ?thesis by (simp add: Compose_def)
next
  case True
  let ?hd = "source (heads s ! 0)"
  let ?h1 = "set_name h ?hd nm"
  have "heads s ! 0 \<in> set (heads s)" using True by (cases "heads s") (auto simp: NumReturns_def)
  then have "?hd \<in> reachable h s" by (rule reachable_head)
  then have ne: "a \<noteq> ?hd" using assms by auto
  have h1: "?h1 ! a = h ! a" using ne by (simp add: set_name_nth)
  have up: "\<And>x. ?h1[?hd := x] ! a = h ! a" using ne h1 by simp
  have pl: "\<And>nodes cnt rm plan h2. DFSVisit h s = Some nodes \<Longrightarrow>
      fold (visit_node_pos ?h1 args) nodes (0, Map.empty, []) = (cnt, rm, plan) \<Longrightarrow>
      apply_plan plan ?h1 = Some h2 \<Longrightarrow> h2 ! a = h ! a"
  proof -
    fix nodes cnt rm plan h2
    assume n: "DFSVisit h s = Some nodes"
      and f: "fold (visit_node_pos ?h1 args) nodes (0, Map.empty, []) = (cnt, rm, plan)"
      and p: "apply_plan plan ?h1 = Some h2"
    have "a \<notin> set nodes" using DFSVisit_reachable [OF n] assms by simp
    from pos_plan_other [OF f p this] show "h2 ! a = h ! a" by (simp add: h1)
  qed
  show ?thesis
    using True h1 up pl
    by (auto simp: Compose_def Let_def set_name_def [symmetric] split: option.splits prod.splits)
qed

lemma Compose_kw_snd_cases:
  "snd (Compose_kw h s kwargs nm) = h \<or>
   snd (Compose_kw h s kwargs nm) = set_name h (source (heads s ! 0)) nm \<or>
   (\<exists>new x. snd (Compose_kw h s kwargs nm)
        = (set_name h (source (heads s ! 0)) nm @ new)[source (heads s ! 0) := x]) \<or>
   (\<exists>new x y. snd (Compose_kw h s kwargs nm)
        = (set_name h (source (heads s ! 0)) nm @ new)
            [source (heads s ! 0) := x, source (heads s ! 0) := y]) \<or>
   (\<exists>nodes cnt vs plan h2. DFSVisit h s = Some nodes \<and>
      fold (visit_node_kw (set_name h (source (heads s ! 0)) nm) kwargs) nodes (0, {}, [])
        = (cnt, vs, plan) \<and>
      apply_plan plan (set_name h (source (heads s ! 0)) nm) = Some h2 \<and>
      snd (Compose_kw h s kwargs nm) = h2)"
  unfolding Compose_kw_def Let_def set_name_def [symmetric] bind_required_eq
  by (simp split: option.splits prod.splits sum.splits) blast

lemma Compose_kw_other:
  assumes "a \<notin> reachable h s" "a < length h"
  shows "snd (Compose_kw h s kwargs nm) ! a = h ! a"
proof (cases "NumReturns s = 1")
  case False
  then show ?thesis by (simp add: Compose_kw_def)
next
  case True
  let ?hd = "source (heads s ! 0)"
  let ?h1 = "set_name h ?hd nm"
  have "heads s ! 0 \<in> set (heads s)" using True by (cases "heads s") (auto simp: NumReturns_def)
  then have "?hd \<in> reachable h s" by (rule reachable_head)
  then have ne: "a \<noteq> ?hd" using assms by auto
  have h1: "?h1 ! a = h ! a" using ne by (simp add: set_name_nth)
  have up: "(?h1 @ new)[?hd := x] ! a = h ! a"
      "(?h1 @ new)[?hd := x, ?hd := y] ! a = h ! a" for new x y
    using ne h1 assms(2) by (simp_all add: nth_append)
  have pl: "h2 ! a = h ! a"
    if n: "DFSVisit h s = Some nodes"
      and f: "fold (visit_node_kw ?h1 kwargs) nodes (0, {}, []) = (cnt, vs, plan)"
      and p: "apply_plan plan ?h1 = Some h2" for nodes cnt vs plan h2
  proof -
    have "a \<notin> set nodes" using DFSVisit_reachable [OF n] assms by simp
    from kw_plan_other [OF f p this] show "h2 ! a = h ! a" by (simp add: h1)
  qed
  from Compose_kw_snd_cases [of h s kwargs nm]
  show ?thesis
  proof (elim disjE exE conjE)
    assume "snd (Compose_kw h s kwargs nm) = h"
    then show ?thesis by simp
  next
    assume "snd (Compose_kw h s kwargs nm) = ?h1"
    then show ?thesis by (simp only: h1)
  next
    fix new x assume "snd (Compose_kw h s kwargs nm) = (?h1 @ new)[?hd := x]"
    then show ?thesis by (simp only: up)
  next
    fix new x y assume "snd (Compose_kw h s kwargs nm) = (?h1 @ new)[?hd := x, ?hd := y]"
    then show ?thesis by (simp only: up)
  next
    fix nodes cnt vs plan h2
    assume "DFSVisit h s = Some nodes"
      "fold (visit_node_kw ?h1 kwargs) nodes (0, {}, []) = (cnt, vs, plan)"
      "apply_plan plan ?h1 = Some h2" "snd (Compose_kw h s kwargs nm) = h2"
    then show ?thesis using pl by simp
  qed
qed

lemma length_Compose [simp]: "length (snd (Compose h s args nm)) = length h"
  by (auto simp: Compose_def Let_def apply_plan_length split: option.splits prod.splits)

lemma length_Compose_kw: "length h \<le> length (snd (Compose_kw h s kwargs nm))"
  using Compose_kw_snd_cases [of h s kwargs nm] by (auto simp: apply_plan_length)

text \<open>
  \<open>operator()\<close> composes the copy: the nodes the store had before the call are after it
  what they were.
\<close>

lemma apply_positional_keeps_store:
  "take (length h) (snd (apply_positional h s args nm)) = h"
proof (cases "DFSVisit h s")
  case None
  then show ?thesis by (simp add: apply_positional_def Copy_def)
next
  case (Some nodes)
  let ?s' = "rename_symbol (copy_address h nodes) s"
  let ?h' = "copied h nodes"
  have s: "snd (apply_positional h s args nm) = snd (Compose ?h' ?s' args nm)"
    by (simp add: apply_positional_def Copy_eq [OF Some] split: prod.splits sum.splits)
  have "snd (Compose ?h' ?s' args nm) ! a = h ! a" if "a < length h" for a
  proof -
    have "a \<notin> reachable ?h' ?s'" using that by (simp add: reachable_copied [OF Some])
    then show ?thesis using that by (simp add: Compose_other copied_old)
  qed
  then show ?thesis
    unfolding s by (intro nth_equalityI) simp_all
qed

lemma apply_keyword_keeps_store:
  "take (length h) (snd (apply_keyword h s kwargs nm)) = h"
proof (cases "DFSVisit h s")
  case None
  then show ?thesis by (simp add: apply_keyword_def Copy_def)
next
  case (Some nodes)
  let ?s' = "rename_symbol (copy_address h nodes) s"
  let ?h' = "copied h nodes"
  have s: "snd (apply_keyword h s kwargs nm) = snd (Compose_kw ?h' ?s' kwargs nm)"
    by (simp add: apply_keyword_def Copy_eq [OF Some] split: prod.splits sum.splits)
  have len: "length h \<le> length (snd (Compose_kw ?h' ?s' kwargs nm))"
    using length_Compose_kw [of ?h' ?s' kwargs nm] by simp
  have "snd (Compose_kw ?h' ?s' kwargs nm) ! a = h ! a" if "a < length h" for a
  proof -
    have "a \<notin> reachable ?h' ?s'" using that by (simp add: reachable_copied [OF Some])
    moreover have "a < length ?h'" using that by simp
    ultimately show ?thesis using that by (simp add: Compose_kw_other copied_old)
  qed
  then show ?thesis
    unfolding s using len by (intro nth_equalityI) simp_all
qed

end
